theory Spec2Isabelle
  imports Main "HOL-Library.AList"
begin

section \<open>JavaScript strings and values\<close>

text \<open>
  The HTTP client of \<^verbatim>\<open>lib/http.js\<close> works on JavaScript strings and plain objects.
  A string is modelled as a \<^typ>\<open>string\<close>, one \<^typ>\<open>char\<close> per code unit; the code
  units are those below 256, which is exactly what \<^verbatim>\<open>body.toString('binary')\<close>
  produces for the multipart parser.
\<close>

datatype jsval =
    Undefined | Null | Bool bool | Num int | Str string
  | Arr "jsval list" | Obj "(string \<times> jsval) list"

type_synonym jsobj = "(string \<times> jsval) list"

definition is_space :: "char \<Rightarrow> bool" where
  \<comment> \<open>the class \<^verbatim>\<open>\s\<close> and the characters removed by \<^verbatim>\<open>trim()\<close>:
      TAB, LF, VT, FF, CR, SPACE, NBSP\<close>
  "is_space c = (of_char c \<in> {9, 10, 11, 12, 13, 32, 160 :: nat})"

definition is_lower :: "char \<Rightarrow> bool" where
  \<comment> \<open>code units with a one-unit upper case: a-z, and the Latin-1 letters 0xE0-0xFE
      without the division sign 0xF7\<close>
  "is_lower c = (let n = of_char c :: nat in
     (97 \<le> n \<and> n \<le> 122) \<or> (224 \<le> n \<and> n \<le> 254 \<and> n \<noteq> 247))"

definition is_upper :: "char \<Rightarrow> bool" where
  \<comment> \<open>A-Z, and the Latin-1 letters 0xC0-0xDE without the multiplication sign 0xD7\<close>
  "is_upper c = (let n = of_char c :: nat in
     (65 \<le> n \<and> n \<le> 90) \<or> (192 \<le> n \<and> n \<le> 222 \<and> n \<noteq> 215))"

fun canonicalize :: "char \<Rightarrow> char" where
  \<comment> \<open>Canonicalize of a regular expression with the \<^verbatim>\<open>i\<close> flag: the upper case of
      the code unit (the code minus 32, that is bit 5 cleared) when it is one code unit\<close>
  "canonicalize (Char b0 b1 b2 b3 b4 b5 b6 b7) =
     (if is_lower (Char b0 b1 b2 b3 b4 b5 b6 b7)
      then Char b0 b1 b2 b3 b4 False b6 b7
      else Char b0 b1 b2 b3 b4 b5 b6 b7)"

fun toLowerCase_char :: "char \<Rightarrow> char" where
  \<comment> \<open>the code plus 32, that is bit 5 set\<close>
  "toLowerCase_char (Char b0 b1 b2 b3 b4 b5 b6 b7) =
     (if is_upper (Char b0 b1 b2 b3 b4 b5 b6 b7)
      then Char b0 b1 b2 b3 b4 True b6 b7
      else Char b0 b1 b2 b3 b4 b5 b6 b7)"

definition toLowerCase :: "string \<Rightarrow> string" where
  "toLowerCase s = map toLowerCase_char s"

definition trim :: "string \<Rightarrow> string" where
  "trim s = rev (dropWhile is_space (rev (dropWhile is_space s)))"

section \<open>Regular expressions as backtracking matchers\<close>

text \<open>
  A pattern is written in continuation-passing style, as a backtracking matcher runs it:
  a matcher takes the continuation for the rest of the pattern and the rest of the input,
  and returns the result of the first successful path, or \<open>None\<close>.
\<close>

fun lit :: "string \<Rightarrow> (string \<Rightarrow> 'a option) \<Rightarrow> string \<Rightarrow> 'a option" where
  \<comment> \<open>a literal, without the \<^verbatim>\<open>i\<close> flag\<close>
  "lit [] k t = k t"
| "lit (p # ps) k [] = None"
| "lit (p # ps) k (c # cs) = (if c = p then lit ps k cs else None)"

fun lit_ci :: "string \<Rightarrow> (string \<Rightarrow> 'a option) \<Rightarrow> string \<Rightarrow> 'a option" where
  \<comment> \<open>a literal or a back-reference under the \<^verbatim>\<open>i\<close> flag\<close>
  "lit_ci [] k t = k t"
| "lit_ci (p # ps) k [] = None"
| "lit_ci (p # ps) k (c # cs) =
     (if canonicalize c = canonicalize p then lit_ci ps k cs else None)"

fun star :: "(char \<Rightarrow> bool) \<Rightarrow> (string \<Rightarrow> string \<Rightarrow> 'a option) \<Rightarrow> string \<Rightarrow> string \<Rightarrow> 'a option" where
  \<comment> \<open>a greedy \<^verbatim>\<open>[class]*\<close>: the longest repetition first, then shorter ones; the
      continuation receives the characters consumed (the capture)\<close>
  "star p k acc [] = k acc []"
| "star p k acc (c # cs) =
     (if p c
      then (case star p k (acc @ [c]) cs of Some r \<Rightarrow> Some r | None \<Rightarrow> k acc (c # cs))
      else k acc (c # cs))"

definition opt :: "((string \<Rightarrow> 'a option) \<Rightarrow> string \<Rightarrow> 'a option) \<Rightarrow> (string \<Rightarrow> 'a option) \<Rightarrow> string \<Rightarrow> 'a option" where
  \<comment> \<open>a greedy \<^verbatim>\<open>(?:...)?\<close>: with the group first, without it when the rest fails\<close>
  "opt m k t = (case m k t of Some r \<Rightarrow> Some r | None \<Rightarrow> k t)"

fun re_exec :: "(string \<Rightarrow> 'a option) \<Rightarrow> string \<Rightarrow> (string \<times> 'a) option" where
  \<comment> \<open>the leftmost match: the start positions in turn, the end of the input included;
      returns the input from the start of the match on, and the matcher's result\<close>
  "re_exec m [] = (case m [] of Some r \<Rightarrow> Some ([], r) | None \<Rightarrow> None)"
| "re_exec m (c # cs) =
     (case m (c # cs) of Some r \<Rightarrow> Some (c # cs, r) | None \<Rightarrow> re_exec m cs)"

section \<open>The envelope extraction\<close>

text \<open>
  \<^verbatim>\<open>/(?:<\?[^?]*\?>[\s]*)?<([^:]*):Envelope([\S\s]*)<\/\1:Envelope>/i\<close>.
  The matchers return the input left after the match.
\<close>

definition envelope_element :: "(string \<Rightarrow> 'a option) \<Rightarrow> string \<Rightarrow> 'a option" where
  \<comment> \<open>\<^verbatim>\<open><([^:]*):Envelope([\S\s]*)<\/\1:Envelope>\<close>\<close>
  "envelope_element k =
     lit_ci ''<'' (star (\<lambda>c. c \<noteq> CHR '':'') (\<lambda>g1.
       lit_ci '':Envelope'' (star (\<lambda>c. True) (\<lambda>g2.
         lit_ci (''</'' @ g1 @ '':Envelope>'') k) [])) [])"

definition xml_prolog :: "(string \<Rightarrow> 'a option) \<Rightarrow> string \<Rightarrow> 'a option" where
  \<comment> \<open>\<^verbatim>\<open><\?[^?]*\?>[\s]*\<close>\<close>
  "xml_prolog k =
     lit_ci ''<?'' (star (\<lambda>c. c \<noteq> CHR ''?'') (\<lambda>_.
       lit_ci ''?>'' (star is_space (\<lambda>_. k) [])) [])"

definition envelope_regex :: "string \<Rightarrow> string option" where
  "envelope_regex = opt xml_prolog (envelope_element Some)"

definition match0 :: "(string \<Rightarrow> string option) \<Rightarrow> string \<Rightarrow> string option" where
  \<comment> \<open>\<^verbatim>\<open>body.match(re)\<close> for a regular expression without the \<^verbatim>\<open>g\<close> flag:
      \<open>None\<close> for null, else the matched substring \<^verbatim>\<open>match[0]\<close>\<close>
  "match0 m s = (case re_exec m s of None \<Rightarrow> None
     | Some (t, r) \<Rightarrow> Some (take (length t - length r) t))"

definition handleResponse :: "jsval \<Rightarrow> jsval" where
  \<comment> \<open>the newer, attachment-capable client\<close>
  "handleResponse body = (case body of
       Str s \<Rightarrow> (case match0 envelope_regex s of Some m \<Rightarrow> Str m | None \<Rightarrow> Str s)
     | _ \<Rightarrow> body)"

definition handleResponse_v1 :: "jsval \<Rightarrow> jsval" where
  \<comment> \<open>the older client embedded in the same file; its regular expression is written
      out from its own source line\<close>
  "handleResponse_v1 body = (case body of
       Str s \<Rightarrow>
         (case match0
            (opt (\<lambda>k. lit_ci ''<?'' (star (\<lambda>c. c \<noteq> CHR ''?'') (\<lambda>_.
                    lit_ci ''?>'' (star is_space (\<lambda>_. k) [])) []))
               (lit_ci ''<'' (star (\<lambda>c. c \<noteq> CHR '':'') (\<lambda>g1.
                  lit_ci '':Envelope'' (star (\<lambda>c. True) (\<lambda>g2.
                    lit_ci (''</'' @ g1 @ '':Envelope>'') Some) [])) []))) s
          of Some m \<Rightarrow> Str m | None \<Rightarrow> Str s)
     | _ \<Rightarrow> body)"

section \<open>Plain objects and the helpers of the libraries\<close>

text \<open>
  A plain object is the list of its own properties in the order in which they are
  enumerated, which for names that are not array indices is the order of their creation.
  Assigning an existing property keeps its place and a new one goes last
  (\<^const>\<open>AList.update\<close>), \<^verbatim>\<open>delete\<close> removes a property (\<^const>\<open>AList.delete\<close>), and
  reading a missing property gives \<^verbatim>\<open>undefined\<close>.
\<close>

definition obj_get :: "jsobj \<Rightarrow> string \<Rightarrow> jsval" where
  "obj_get ob k = (case map_of ob k of None \<Rightarrow> Undefined | Some v \<Rightarrow> v)"

definition assign_all :: "jsobj \<Rightarrow> jsobj \<Rightarrow> jsobj" where
  \<comment> \<open>\<^verbatim>\<open>for (attr in src) target[attr] = src[attr]\<close>\<close>
  "assign_all target src = foldl (\<lambda>ob (k, v). AList.update k v ob) target src"

definition or_empty :: "jsobj option \<Rightarrow> jsobj" where
  \<comment> \<open>\<^verbatim>\<open>x || {}\<close> for an optional object argument\<close>
  "or_empty x = (case x of None \<Rightarrow> [] | Some ob \<Rightarrow> ob)"

fun property :: "jsval \<Rightarrow> string \<Rightarrow> jsval" where
  \<comment> \<open>a property of a value that is an object\<close>
  "property (Obj kvs) k = obj_get kvs k"
| "property v k = Undefined"

fun truthy :: "jsval \<Rightarrow> bool" where
  "truthy Undefined = False"
| "truthy Null = False"
| "truthy (Bool b) = b"
| "truthy (Num n) = (n \<noteq> 0)"
| "truthy (Str s) = (s \<noteq> [])"
| "truthy (Arr xs) = True"
| "truthy (Obj kvs) = True"

fun is_string :: "jsval \<Rightarrow> bool" where
  \<comment> \<open>\<^verbatim>\<open>typeof v === 'string'\<close>\<close>
  "is_string (Str s) = True"
| "is_string v = False"

fun string_of :: "jsval \<Rightarrow> string" where
  \<comment> \<open>the characters of a string value\<close>
  "string_of (Str s) = s"
| "string_of v = []"

definition is_digit :: "char \<Rightarrow> bool" where
  "is_digit c = (48 \<le> (of_char c :: nat) \<and> (of_char c :: nat) \<le> 57)"

definition digit_char :: "nat \<Rightarrow> char" where
  "digit_char d = ''0123456789'' ! d"

function show_nat :: "nat \<Rightarrow> string" where
  \<comment> \<open>the decimal digits of a number, as string concatenation writes them\<close>
  "show_nat n = (if n < 10 then [digit_char n] else show_nat (n div 10) @ [digit_char (n mod 10)])"
  by pat_completeness auto
termination
  by (relation "measure id") auto

definition show_int :: "int \<Rightarrow> string" where
  "show_int i = (if i < 0 then CHR ''-'' # show_nat (nat (- i)) else show_nat (nat i))"

definition digits_value :: "string \<Rightarrow> nat" where
  "digits_value ds = foldl (\<lambda>n c. 10 * n + (of_char c - 48)) 0 ds"

definition parseInt :: "string option \<Rightarrow> int option" where
  \<comment> \<open>\<^verbatim>\<open>parseInt(x, 10)\<close>, \<open>None\<close> for NaN: leading white space, a sign, then the
      digits up to the first other character; null reads as the text "null"\<close>
  "parseInt x = (case x of None \<Rightarrow> None | Some s \<Rightarrow>
     (let s1 = dropWhile is_space s;
          neg = (s1 \<noteq> [] \<and> hd s1 = CHR ''-'');
          s2 = (if s1 \<noteq> [] \<and> (hd s1 = CHR ''-'' \<or> hd s1 = CHR ''+'') then tl s1 else s1);
          ds = takeWhile is_digit s2
      in if ds = [] then None
         else Some (if neg then - int (digits_value ds) else int (digits_value ds))))"

definition byteLength :: "string \<Rightarrow> nat" where
  \<comment> \<open>\<^verbatim>\<open>Buffer.byteLength(data, 'utf8')\<close>: one byte for a code unit below 128, two for
      the others below 256\<close>
  "byteLength s = sum_list (map (\<lambda>c. if (of_char c :: nat) < 128 then 1 else 2) s)"

fun isEmpty :: "jsval \<Rightarrow> bool" where
  \<comment> \<open>lodash \<^verbatim>\<open>_.isEmpty\<close>: no length for strings and arrays, no own property for
      objects, and true for every other value\<close>
  "isEmpty (Str s) = (s = [])"
| "isEmpty (Arr xs) = (xs = [])"
| "isEmpty (Obj kvs) = (kvs = [])"
| "isEmpty v = True"

fun own_entries :: "jsval \<Rightarrow> jsobj" where
  \<comment> \<open>the own enumerable properties that lodash \<^verbatim>\<open>_.forOwn\<close> visits, in its order\<close>
  "own_entries (Obj kvs) = kvs"
| "own_entries (Arr xs) = zip (map show_nat [0 ..< length xs]) xs"
| "own_entries (Str s) = zip (map show_nat [0 ..< length s]) (map (\<lambda>c. Str [c]) s)"
| "own_entries v = []"

section \<open>Building the request\<close>

record parsed_url =
  \<comment> \<open>the fields of \<^verbatim>\<open>url.parse(rurl)\<close> that the client reads; \<open>None\<close> is null\<close>
  protocol :: "string option"
  hostname :: "string option"
  port :: "string option"
  pathname :: "string option"
  search :: "string option"
  hash :: "string option"

definition or_null :: "string option \<Rightarrow> jsval" where
  "or_null x = (case x of None \<Rightarrow> Null | Some s \<Rightarrow> Str s)"

definition url_object :: "parsed_url \<Rightarrow> jsval" where
  "url_object curl = Obj
     [(''protocol'', or_null (protocol curl)), (''hostname'', or_null (hostname curl)),
      (''port'', or_null (port curl)), (''pathname'', or_null (pathname curl)),
      (''search'', or_null (search curl)), (''hash'', or_null (hash curl))]"

definition envelope_part :: "string \<Rightarrow> jsval \<Rightarrow> jsval" where
  "envelope_part start data = Obj
     [(''content-type'', Str ''application/soap+xml; charset=UTF-8''),
      (''content-transfer-encoding'', Str ''8bit''),
      (''content-id'', Str (''<'' @ start @ ''>'')),
      (''body'', data)]"

definition attachment_part :: "string \<times> jsval \<Rightarrow> jsval" where
  "attachment_part kv = Obj
     [(''content-transfer-encoding'', Str ''binary''),
      (''content-id'', Str (''<'' @ fst kv @ ''>'')),
      (''body'', snd kv)]"

definition buildRequest ::
  "string \<Rightarrow> string \<Rightarrow> string \<Rightarrow> parsed_url \<Rightarrow> jsval \<Rightarrow> jsobj option \<Rightarrow> jsobj option \<Rightarrow> jsobj" where
  \<comment> \<open>\<open>VERSION\<close> is the version of package.json; \<open>uuid1\<close> and \<open>uuid2\<close> are the results
      of the first and the second call of \<^verbatim>\<open>uuid()\<close>; \<open>curl\<close> is \<^verbatim>\<open>url.parse(rurl)\<close>\<close>
  "buildRequest VERSION uuid1 uuid2 curl data exheaders exoptions =
    (let exoptions = or_empty exoptions;
         attachments = (if truthy (obj_get exoptions ''attachments'')
                        then obj_get exoptions ''attachments'' else Obj []);
         host = (case hostname curl of None \<Rightarrow> ''null'' | Some h \<Rightarrow> h);
         port = parseInt (port curl);
         method = (if truthy data then ''POST'' else ''GET'');
         headers =
           [(''User-Agent'', Str (''node-soap/'' @ VERSION)),
            (''Accept'', Str ''text/html,application/xhtml+xml,application/xml,text/xml;q=0.9,*/*;q=0.8''),
            (''Accept-Encoding'', Str ''none''),
            (''Accept-Charset'', Str ''utf-8''),
            (''Connection'', Str ''close''),
            (''Host'', Str (host @ (case port of None \<Rightarrow> [] | Some p \<Rightarrow> '':'' @ show_int p)))];
         exheaders = or_empty exheaders;
         headers = assign_all headers exheaders;
         (headers, multipart) =
           (if is_string data \<and> isEmpty attachments
            then (AList.update ''Content-Length'' (Num (int (byteLength (string_of data)))) headers,
                  Undefined)
            else if \<not> isEmpty attachments
            then (AList.update ''content-type''
                    (Str (''multipart/related; boundary='' @ uuid2
                        @ ''; type=\"application/soap+xml\"; start=\"<'' @ uuid1 @ ''>\"''))
                    (AList.delete ''SOAPAction'' headers),
                  Arr (envelope_part uuid1 data # map attachment_part (own_entries attachments)))
            else (headers, Undefined));
         options =
           [(''uri'', url_object curl),
            (''method'', Str method),
            (''headers'', Obj headers),
            (''followAllRedirects'', Bool True),
            (''encoding'', Null),
            (''multipart'', multipart)];
         options =
           (if isEmpty attachments \<and> obj_get headers ''Connection'' = Str ''keep-alive''
            then AList.update ''body'' data options else options)
     in assign_all options (filter (\<lambda>(k, v). k \<noteq> ''attachments'') exoptions))"

datatype end_call = TypeError | NotCalled | End jsval

definition request_end :: "jsobj \<Rightarrow> jsval \<Rightarrow> jsobj option \<Rightarrow> end_call" where
  \<comment> \<open>what \<^verbatim>\<open>request\<close> does after the request is issued: \<^verbatim>\<open>req.end(data)\<close> unless
      there are attachments or the connection is kept alive; \<open>options\<close> is the result of
      \<^const>\<open>buildRequest\<close>, and reading \<^verbatim>\<open>Connection\<close> of a missing \<^verbatim>\<open>headers\<close> throws\<close>
  "request_end options data exoptions =
     (if isEmpty (obj_get (or_empty exoptions) ''attachments'')
      then (case obj_get options ''headers'' of
              Undefined \<Rightarrow> TypeError
            | Null \<Rightarrow> TypeError
            | Obj headers \<Rightarrow>
                if obj_get headers ''Connection'' \<noteq> Str ''keep-alive'' then End data else NotCalled
            | _ \<Rightarrow> End data)
      else NotCalled)"

definition populated :: "jsobj \<Rightarrow> string \<Rightarrow> bool" where
  \<comment> \<open>the request descriptor carries a value in this field\<close>
  "populated options k = (obj_get options k \<noteq> Undefined \<and> obj_get options k \<noteq> Null)"

section \<open>Parsing a multipart response\<close>

record mime_part =
  part_headers :: "(string \<times> string option) list"
  part_data :: string

record response =
  \<comment> \<open>the response object of the HTTP library: it always has a header map, with the
      header names in lower case\<close>
  res_headers :: "(string \<times> string) list"

definition boundary_regex :: "string \<Rightarrow> string option" where
  \<comment> \<open>\<^verbatim>\<open>/boundary=\"([^\"]*)\"/i\<close>; the result is the first group\<close>
  "boundary_regex =
     lit_ci ''boundary=\"'' (star (\<lambda>c. c \<noteq> CHR 0x22) (\<lambda>g1. lit_ci ''\"'' (\<lambda>_. Some g1)) [])"

definition blank_line :: "string \<Rightarrow> string option" where
  \<comment> \<open>\<^verbatim>\<open>/\r\n\r\n/g\<close>\<close>
  "blank_line = lit [CHR 0x0D, CHR 0x0A, CHR 0x0D, CHR 0x0A] Some"

definition line_break :: "string \<Rightarrow> string option" where
  \<comment> \<open>\<^verbatim>\<open>/\r?\n/g\<close>\<close>
  "line_break = opt (lit [CHR 0x0D]) (lit [CHR 0x0A] Some)"

definition search_index :: "(string \<Rightarrow> 'a option) \<Rightarrow> string \<Rightarrow> int" where
  \<comment> \<open>\<^verbatim>\<open>s.search(re)\<close>: the index of the leftmost match, or -1\<close>
  "search_index m s = (case re_exec m s of None \<Rightarrow> - 1
     | Some (t, r) \<Rightarrow> int (length s - length t))"

definition substring :: "string \<Rightarrow> int \<Rightarrow> int \<Rightarrow> string" where
  \<comment> \<open>\<^verbatim>\<open>s.substring(start, end)\<close>: both indices are clamped to the string, and
      swapped when the first is the larger\<close>
  "substring s start end =
     (let n = int (length s);
          a = min (max start 0) n;
          b = min (max end 0) n
      in take (nat (max a b - min a b)) (drop (nat (min a b)) s))"

definition substring_from :: "string \<Rightarrow> int \<Rightarrow> string" where
  \<comment> \<open>\<^verbatim>\<open>s.substring(start)\<close>\<close>
  "substring_from s start = substring s start (int (length s))"

definition starts_with :: "string \<Rightarrow> string \<Rightarrow> bool" where
  "starts_with s sub = (take (length sub) s = sub)"

function split_from :: "string \<Rightarrow> string \<Rightarrow> string \<Rightarrow> string list" where
  \<comment> \<open>the fields of \<^verbatim>\<open>s.split(sep)\<close> for a non-empty separator; \<open>acc\<close> is the
      field read so far\<close>
  "split_from sep acc [] = [acc]"
| "split_from sep acc (c # cs) =
     (if sep \<noteq> [] \<and> starts_with (c # cs) sep
      then acc # split_from sep [] (drop (length sep) (c # cs))
      else split_from sep (acc @ [c]) cs)"
  by pat_completeness auto
termination
  by (relation "measure (\<lambda>(sep, acc, s). length s)") auto

definition split :: "string \<Rightarrow> string \<Rightarrow> string list" where
  \<comment> \<open>\<^verbatim>\<open>s.split(sep)\<close> with a string separator; the empty separator gives the
      characters\<close>
  "split s sep = (if sep = [] then map (\<lambda>c. [c]) s else split_from sep [] s)"

function split_lines :: "string \<Rightarrow> string \<Rightarrow> string list" where
  \<comment> \<open>\<^verbatim>\<open>s.split(/\r?\n/g)\<close>: the expression is tried at each position in turn\<close>
  "split_lines acc [] = [acc]"
| "split_lines acc (c # cs) =
     (case line_break (c # cs) of
        Some rest \<Rightarrow> acc # split_lines [] rest
      | None \<Rightarrow> split_lines (acc @ [c]) cs)"
  by pat_completeness auto
termination
proof (relation "measure (\<lambda>(acc, s). length s)")
  show "wf (measure (\<lambda>(acc, s). length s))" by simp
next
  fix acc :: string and c cs rest
  assume "line_break (c # cs) = Some rest"
  then have "length rest < length (c # cs)"
    by (cases cs) (auto simp: line_break_def opt_def split: if_splits)
  then show "(([], rest), (acc, c # cs)) \<in> measure (\<lambda>(acc, s). length s)" by simp
next
  fix acc :: string and c cs
  show "((acc @ [c], cs), (acc, c # cs)) \<in> measure (\<lambda>(acc, s). length s)" by simp
qed

definition field :: "string list \<Rightarrow> nat \<Rightarrow> string option" where
  \<comment> \<open>an array element, \<open>None\<close> for \<^verbatim>\<open>undefined\<close> beyond the end\<close>
  "field xs i = (if i < length xs then Some (xs ! i) else None)"

definition set_header ::
  "(string \<times> string option) list \<Rightarrow> string \<Rightarrow> string option \<Rightarrow> (string \<times> string option) list" where
  \<comment> \<open>\<^verbatim>\<open>headers[headerName] = headerValue\<close> on a plain object: the property
      \<^verbatim>\<open>__proto__\<close> ignores a string and \<^verbatim>\<open>undefined\<close>\<close>
  "set_header hs k v = (if k = ''__proto__'' then hs else AList.update k v hs)"

definition parse_header ::
  "(string \<times> string option) list \<Rightarrow> string \<Rightarrow> (string \<times> string option) list" where
  \<comment> \<open>the body of the loop over the lines of a header block\<close>
  "parse_header hs header =
     (let headerName = field (split header '':'') 0;
          headerValue = field (split header '':'') 1
      in case headerName of
           None \<Rightarrow> hs
         | Some name \<Rightarrow>
             if name \<noteq> []
             then set_header hs (trim name)
                    (case headerValue of
                       None \<Rightarrow> None
                     | Some v \<Rightarrow> if v \<noteq> [] then Some (trim v) else Some v)
             else hs)"

definition parse_part :: "string \<Rightarrow> mime_part" where
  \<comment> \<open>the body of the loop over the segments\<close>
  "parse_part attachment =
     (let bodyIndex = search_index blank_line attachment;
          headerPart = substring attachment 0 bodyIndex;
          headers = foldl parse_header [] (split_lines [] headerPart);
          data = substring_from attachment (bodyIndex + 4)
      in \<lparr>part_headers = headers, part_data = data\<rparr>)"

definition content_type :: "response option \<Rightarrow> string option" where
  \<comment> \<open>\<^verbatim>\<open>res && res.headers['content-type']\<close> when it is truthy\<close>
  "content_type res = (case res of None \<Rightarrow> None | Some r \<Rightarrow>
     (case map_of (res_headers r) ''content-type'' of
        None \<Rightarrow> None
      | Some v \<Rightarrow> if v \<noteq> [] then Some v else None))"

definition handleMultipart :: "response option \<Rightarrow> jsval \<Rightarrow> mime_part list" where
  "handleMultipart res body =
     (if is_string body
      then (case content_type res of
              None \<Rightarrow> []
            | Some ct \<Rightarrow>
                (case re_exec boundary_regex ct of
                   None \<Rightarrow> []
                 | Some (t, boundary1) \<Rightarrow>
                     (let partSplitter = ''--'' @ boundary1;
                          parts = split (string_of body) partSplitter
                      in map parse_part parts)))
      else [])"

section \<open>The response callback\<close>

definition indexOf :: "string \<Rightarrow> string \<Rightarrow> int" where
  \<comment> \<open>\<^verbatim>\<open>s.indexOf(sub)\<close>: the first index where \<open>sub\<close> starts, or -1\<close>
  "indexOf s sub = search_index (lit sub Some) s"

definition find_header :: "(string \<Rightarrow> bool) \<Rightarrow> (string \<times> string option) list \<Rightarrow> string option" where
  \<comment> \<open>lodash \<^verbatim>\<open>_.find\<close> on an object with a predicate on the key: the value of the
      first property that satisfies it, \<^verbatim>\<open>undefined\<close> when there is none\<close>
  "find_header p hs = (case filter (\<lambda>(k, v). p k) hs of [] \<Rightarrow> None | (k, v) # _ \<Rightarrow> v)"

definition is_attachment :: "mime_part \<Rightarrow> bool" where
  "is_attachment part =
     (let contentDisposition =
            find_header (\<lambda>key. key \<noteq> [] \<and> toLowerCase key = ''content-disposition'')
              (part_headers part)
      in indexOf (case contentDisposition of None \<Rightarrow> [] | Some v \<Rightarrow> if v \<noteq> [] then v else [])
           ''attachment'' \<noteq> - 1)"

datatype callback_args =
    Failure jsval
  | Success "response option" jsval "mime_part list" "mime_part list"

definition on_response :: "jsval \<Rightarrow> response option \<Rightarrow> string \<Rightarrow> string \<Rightarrow> callback_args" where
  \<comment> \<open>the callback that \<^verbatim>\<open>request\<close> hands to the HTTP library; \<open>binaryBody\<close> and
      \<open>textBody\<close> are \<^verbatim>\<open>body.toString('binary')\<close> and \<^verbatim>\<open>body.toString('utf8')\<close>.
      The result is the argument list of the caller's callback: the error alone, or
      the response, the envelope text, the attachments and all the parts\<close>
  "on_response err res binaryBody textBody =
     (if truthy err then Failure err
      else (let parts = handleMultipart res (Str binaryBody);
                attachments = filter is_attachment parts
            in Success res (handleResponse (Str textBody)) attachments parts))"

section \<open>Notions of the statements and of their proofs\<close>

abbreviation ci_eq :: "string \<Rightarrow> string \<Rightarrow> bool" where
  \<comment> \<open>equal under the \<^verbatim>\<open>i\<close> flag\<close>
  "ci_eq a b \<equiv> map canonicalize a = map canonicalize b"

definition contains :: "string \<Rightarrow> string \<Rightarrow> bool" where
  "contains s sub = (\<exists>pre post. s = pre @ sub @ post)"

definition is_envelope_element :: "string \<Rightarrow> bool" where
  \<comment> \<open>the texts \<^verbatim>\<open><PREFIX:Envelope ... </PREFIX:Envelope>\<close>: a prefix without colon,
      the same on both tags up to letter case\<close>
  "is_envelope_element m =
     (\<exists>g e mid g' e'. m = ''<'' @ g @ e @ mid @ ''</'' @ g' @ e' \<and> CHR '':'' \<notin> set g \<and>
        ci_eq e '':Envelope'' \<and> ci_eq g' g \<and> ci_eq e' '':Envelope>'')"

definition is_xml_prolog :: "string \<Rightarrow> bool" where
  \<comment> \<open>the texts \<^verbatim>\<open><?...?>\<close> followed by white space\<close>
  "is_xml_prolog p =
     (\<exists>q ws. p = ''<?'' @ q @ ''?>'' @ ws \<and> CHR ''?'' \<notin> set q \<and> (\<forall>c\<in>set ws. is_space c))"

definition envelope_pattern_matches :: "string \<Rightarrow> bool" where
  \<comment> \<open>somewhere in the text there is an envelope element, with or without a prolog in
      front of it\<close>
  "envelope_pattern_matches s =
     (\<exists>pre p m post. s = pre @ p @ m @ post \<and> (p = [] \<or> is_xml_prolog p) \<and>
        is_envelope_element m)"

definition bit5 :: "char \<Rightarrow> bool" where
  "bit5 c = (case c of Char b0 b1 b2 b3 b4 b5 b6 b7 \<Rightarrow> b5)"

definition any_then :: "string \<Rightarrow> string \<Rightarrow> string option" where
  \<comment> \<open>\<^verbatim>\<open>[\S\s]*\<close> followed by a last literal\<close>
  "any_then w = star (\<lambda>c. True) (\<lambda>g. lit_ci w Some) []"

definition closing_tag :: "string \<Rightarrow> string" where
  "closing_tag g = ''</'' @ g @ '':Envelope>''"

definition after_prolog :: "string \<Rightarrow> string option" where
  \<comment> \<open>the input after a prolog at its start\<close>
  "after_prolog = lit_ci ''<?'' (\<lambda>t'. lit_ci ''?>'' (\<lambda>t''. Some (dropWhile is_space t''))
       (dropWhile (\<lambda>c. c \<noteq> CHR ''?'') t'))"

definition merged_headers :: "string \<Rightarrow> parsed_url \<Rightarrow> jsobj option \<Rightarrow> jsobj" where
  \<comment> \<open>the headers of \<^const>\<open>buildRequest\<close> after the extra headers are merged in\<close>
  "merged_headers VERSION curl exheaders = assign_all
           [(''User-Agent'', Str (''node-soap/'' @ VERSION)),
            (''Accept'', Str ''text/html,application/xhtml+xml,application/xml,text/xml;q=0.9,*/*;q=0.8''),
            (''Accept-Encoding'', Str ''none''),
            (''Accept-Charset'', Str ''utf-8''),
            (''Connection'', Str ''close''),
            (''Host'', Str ((case hostname curl of None \<Rightarrow> ''null'' | Some h \<Rightarrow> h)
                @ (case parseInt (port curl) of None \<Rightarrow> [] | Some p \<Rightarrow> '':'' @ show_int p)))]
           (or_empty exheaders)"

definition example_url :: parsed_url where
  \<comment> \<open>\<^verbatim>\<open>url.parse('http://host/svc')\<close>\<close>
  "example_url = \<lparr>protocol = Some ''http:'', hostname = Some ''host'', port = None,
     pathname = Some ''/svc'', search = None, hash = None\<rparr>"

definition has_boundary_token :: "string \<Rightarrow> bool" where
  \<comment> \<open>the header value contains \<^verbatim>\<open>boundary="..."\<close>: the keyword in any letter case,
      then a quoted text\<close>
  "has_boundary_token ct =
     (\<exists>pre kw b post. ct = pre @ kw @ b @ [CHR 0x22] @ post \<and> ci_eq kw ''boundary=\"'' \<and>
        CHR 0x22 \<notin> set b)"

definition claimed_is_attachment :: "mime_part \<Rightarrow> bool" where
  \<comment> \<open>the attachment rule in the words of the specification: some header is named
      \<^verbatim>\<open>Content-Disposition\<close> and has a value containing \<^verbatim>\<open>attachment\<close>, both compared
      without regard to letter case\<close>
  "claimed_is_attachment part =
     (\<exists>kv\<in>set (part_headers part). toLowerCase (fst kv) = ''content-disposition'' \<and>
        (\<exists>v. snd kv = Some v \<and> contains (toLowerCase v) ''attachment''))"

definition attachment_rule :: "mime_part \<Rightarrow> bool" where
  \<comment> \<open>the first header named \<^verbatim>\<open>Content-Disposition\<close>, in any letter case, has a value
      that contains \<^verbatim>\<open>attachment\<close> in lower case\<close>
  "attachment_rule part =
     (\<exists>hs1 k v hs2. part_headers part = hs1 @ (k, Some v) # hs2 \<and>
        toLowerCase k = ''content-disposition'' \<and>
        (\<forall>kv\<in>set hs1. toLowerCase (fst kv) \<noteq> ''content-disposition'') \<and>
        contains v ''attachment'')"

definition example_response :: "response option" where
  "example_response = Some \<lparr>res_headers =
     [(''content-type'', ''multipart/related; type=\"text/xml\"; boundary=\"B\"'')]\<rparr>"

definition CRLF :: string where
  "CRLF = [CHR 0x0D, CHR 0x0A]"

section \<open>Characters under the ignore-case flag\<close>

lemma lower_bit5: "is_lower (Char b0 b1 b2 b3 b4 b5 b6 b7) \<Longrightarrow> b5"
  unfolding is_lower_def Let_def
  by (cases b0; cases b1; cases b2; cases b3; cases b4; cases b5; cases b6; cases b7; simp)

lemma canonicalize_fix: "\<not> is_lower c \<Longrightarrow> canonicalize c = c"
  by (cases c) simp

lemma canonicalize_lower: "is_lower c \<Longrightarrow> \<not> bit5 (canonicalize c)"
  by (cases c) (simp add: bit5_def)

lemma canonicalize_punct:
  assumes "bit5 p" "\<not> is_lower p"
  shows "canonicalize c = canonicalize p \<longleftrightarrow> c = p"
proof (cases "is_lower c")
  case True
  then have "canonicalize c \<noteq> p" using canonicalize_lower assms(1) by metis
  moreover have "c \<noteq> p" using True assms(2) by auto
  ultimately show ?thesis using assms(2) by (simp add: canonicalize_fix)
next
  case False
  then show ?thesis using assms(2) by (simp add: canonicalize_fix)
qed

lemma punct_facts:
  "bit5 (CHR '':'')" "\<not> is_lower (CHR '':'')"
  "bit5 (CHR ''<'')" "\<not> is_lower (CHR ''<'')"
  "bit5 (CHR ''?'')" "\<not> is_lower (CHR ''?'')"
  "bit5 (CHR ''>'')" "\<not> is_lower (CHR ''>'')"
  "bit5 (CHR ''/'')" "\<not> is_lower (CHR ''/'')"
  "bit5 (CHR 0x22)" "\<not> is_lower (CHR 0x22)"
  by (simp_all add: bit5_def is_lower_def)

lemma canon_consts [simp]:
  "canonicalize (CHR '':'') = CHR '':''" "canonicalize (CHR ''<'') = CHR ''<''"
  "canonicalize (CHR ''?'') = CHR ''?''" "canonicalize (CHR 0x22) = CHR 0x22"
  "canonicalize (CHR ''>'') = CHR ''>''" "canonicalize (CHR ''/'') = CHR ''/''"
  by (simp_all add: is_lower_def)

lemma canon_colon [simp]: "canonicalize c = CHR '':'' \<longleftrightarrow> c = CHR '':''"
  using canonicalize_punct[of "CHR '':''" c] punct_facts by simp

lemma canon_lt [simp]: "canonicalize c = CHR ''<'' \<longleftrightarrow> c = CHR ''<''"
  using canonicalize_punct[of "CHR ''<''" c] punct_facts by simp

lemma canon_qm [simp]: "canonicalize c = CHR ''?'' \<longleftrightarrow> c = CHR ''?''"
  using canonicalize_punct[of "CHR ''?''" c] punct_facts by simp

lemma canon_dq [simp]: "canonicalize c = CHR 0x22 \<longleftrightarrow> c = CHR 0x22"
  using canonicalize_punct[of "CHR 0x22" c] punct_facts by simp

declare canonicalize.simps [simp del]

lemma space_not_lt: "is_space c \<Longrightarrow> c \<noteq> CHR ''<''"
  by (auto simp: is_space_def)

lemma ci_eq_Cons:
  "ci_eq e (p # ps) \<Longrightarrow> \<exists>c e'. e = c # e' \<and> canonicalize c = canonicalize p \<and> ci_eq e' ps"
  by (cases e) auto

lemma ci_eq_length: "ci_eq a b \<Longrightarrow> length a = length b"
  by (metis length_map)

lemma ci_eq_punct:
  "ci_eq a w \<Longrightarrow> (\<forall>p\<in>set w. bit5 p \<and> \<not> is_lower p) \<Longrightarrow> a = w"
proof (induction w arbitrary: a)
  case Nil then show ?case by simp
next
  case (Cons p ps)
  from Cons.prems(1) obtain c e' where e: "a = c # e'" "canonicalize c = canonicalize p" "ci_eq e' ps"
    using ci_eq_Cons by blast
  have "c = p" using canonicalize_punct[of p c] e(2) Cons.prems(2) by simp
  moreover have "e' = ps" using Cons.IH[OF e(3)] Cons.prems(2) by simp
  ultimately show ?case using e(1) by simp
qed

lemma ci_eq_open: "ci_eq a ''<?'' \<Longrightarrow> a = ''<?''"
  by (rule ci_eq_punct) (simp_all add: bit5_def is_lower_def)

lemma ci_eq_close: "ci_eq a ''?>'' \<Longrightarrow> a = ''?>''"
  by (rule ci_eq_punct) (simp_all add: bit5_def is_lower_def)

lemma ci_eq_lt_slash: "ci_eq a ''</'' \<Longrightarrow> a = ''</''"
  by (rule ci_eq_punct) (simp_all add: bit5_def is_lower_def)

section \<open>The matchers in closed form\<close>

lemma lit_ci_eq:
  "lit_ci w k t = (if length w \<le> length t \<and> ci_eq (take (length w) t) w
                   then k (drop (length w) t) else None)"
  by (induction w k t rule: lit_ci.induct) auto

lemma lit_ci_Some:
  "lit_ci w k t = Some r \<longleftrightarrow> (\<exists>w' u. t = w' @ u \<and> ci_eq w' w \<and> k u = Some r)"
proof
  assume "lit_ci w k t = Some r"
  then have a: "length w \<le> length t" "ci_eq (take (length w) t) w" "k (drop (length w) t) = Some r"
    by (auto simp: lit_ci_eq split: if_splits)
  show "\<exists>w' u. t = w' @ u \<and> ci_eq w' w \<and> k u = Some r"
    by (rule exI[of _ "take (length w) t"], rule exI[of _ "drop (length w) t"]) (use a in simp)
next
  assume "\<exists>w' u. t = w' @ u \<and> ci_eq w' w \<and> k u = Some r"
  then obtain w' u where h: "t = w' @ u" "ci_eq w' w" "k u = Some r" by blast
  from h(2) have "length w' = length w" by (rule ci_eq_length)
  with h show "lit_ci w k t = Some r" by (simp add: lit_ci_eq)
qed

lemma lit_ci_append: "ci_eq w' w \<Longrightarrow> lit_ci w k (w' @ u) = k u"
proof -
  assume h: "ci_eq w' w"
  then have "length w' = length w" by (rule ci_eq_length)
  with h show ?thesis by (simp add: lit_ci_eq)
qed

lemma lit_ci_ext: "lit_ci w Some y \<noteq> None \<Longrightarrow> lit_ci w Some (y @ r) \<noteq> None"
  by (auto simp: lit_ci_eq split: if_splits)

lemma star_skip:
  "(\<And>a c cs. p c \<Longrightarrow> k a (c # cs) = None) \<Longrightarrow>
   star p k acc t = k (acc @ takeWhile p t) (dropWhile p t)"
proof (induction t arbitrary: acc)
  case Nil then show ?case by simp
next
  case (Cons c cs)
  show ?case
  proof (cases "p c")
    case True
    have "star p k (acc @ [c]) cs = k ((acc @ [c]) @ takeWhile p cs) (dropWhile p cs)"
      using Cons.IH[OF Cons.prems] by blast
    with True Cons.prems show ?thesis by (auto split: option.splits)
  next
    case False then show ?thesis by simp
  qed
qed

lemma star_acc: "star p (\<lambda>_. k) acc t = star p (\<lambda>_. k) acc' t"
proof (induction t arbitrary: acc acc')
  case Nil then show ?case by simp
next
  case (Cons c cs)
  show ?case by (simp add: Cons.IH[of "acc @ [c]" "acc' @ [c]"])
qed

section \<open>The greedy any-character star before the closing tag\<close>

lemma any_then_Nil: "any_then w [] = lit_ci w Some []"
  by (simp add: any_then_def)

lemma any_then_Cons:
  "any_then w (c # cs) = (case any_then w cs of Some r \<Rightarrow> Some r | None \<Rightarrow> lit_ci w Some (c # cs))"
  unfolding any_then_def by (simp add: star_acc[of _ _ "[c]" _ "[]"])

lemma any_then_length: "any_then w t = Some r \<Longrightarrow> length w + length r \<le> length t"
proof (induction t)
  case Nil then show ?case by (auto simp: any_then_Nil lit_ci_eq split: if_splits)
next
  case (Cons c cs) then show ?case
    by (auto simp: any_then_Cons lit_ci_eq split: option.splits if_splits)
qed

lemma any_then_exact:
  assumes "lit_ci w Some y = Some []"
  shows "any_then w y = Some []"
proof (cases y)
  case Nil with assms show ?thesis by (simp add: any_then_Nil)
next
  case (Cons c cs)
  from assms have "length y = length w" by (auto simp: lit_ci_eq split: if_splits)
  then have "any_then w cs = None" using any_then_length[of w cs] Cons by (cases "any_then w cs") auto
  with assms Cons show ?thesis by (simp add: any_then_Cons)
qed

lemma any_then_suffix: "lit_ci w Some y = Some [] \<Longrightarrow> any_then w (x @ y) = Some []"
  by (induction x) (simp_all add: any_then_exact any_then_Cons)

lemma any_then_split:
  "any_then w t = Some r \<Longrightarrow> \<exists>mid w'. t = mid @ w' @ r \<and> ci_eq w' w"
proof (induction t)
  case Nil
  then show ?case by (auto simp: any_then_Nil lit_ci_eq split: if_splits)
next
  case (Cons c cs)
  show ?case
  proof (cases "any_then w cs")
    case (Some r')
    with Cons.prems have "r' = r" by (simp add: any_then_Cons)
    with Some Cons.IH obtain mid w' where "cs = mid @ w' @ r" "ci_eq w' w" by blast
    then have "c # cs = (c # mid) @ w' @ r \<and> ci_eq w' w" by simp
    then show ?thesis by blast
  next
    case None
    with Cons.prems have "lit_ci w Some (c # cs) = Some r" by (simp add: any_then_Cons)
    then obtain w' where w: "c # cs = w' @ r" "ci_eq w' w" by (auto simp: lit_ci_Some)
    then have "c # cs = [] @ w' @ r \<and> ci_eq w' w" by simp
    then show ?thesis by blast
  qed
qed

lemma any_then_trunc: "any_then w t = Some r \<Longrightarrow> \<exists>a. t = a @ r \<and> any_then w a = Some []"
proof -
  assume "any_then w t = Some r"
  then obtain mid w' where h: "t = mid @ w' @ r" "ci_eq w' w" using any_then_split by blast
  have "lit_ci w Some w' = Some []" using lit_ci_append[OF h(2), of Some "[]"] by simp
  then have "any_then w (mid @ w') = Some []" by (rule any_then_suffix)
  with h(1) show ?thesis by (metis append.assoc)
qed

lemma any_then_ex:
  "any_then w t \<noteq> None \<longleftrightarrow> (\<exists>x y. t = x @ y \<and> lit_ci w Some y \<noteq> None)"
proof (induction t)
  case Nil then show ?case by (simp add: any_then_Nil)
next
  case (Cons c cs)
  show ?case
  proof
    assume "any_then w (c # cs) \<noteq> None"
    then consider "any_then w cs \<noteq> None" | "lit_ci w Some (c # cs) \<noteq> None"
      by (auto simp: any_then_Cons split: option.splits)
    then show "\<exists>x y. c # cs = x @ y \<and> lit_ci w Some y \<noteq> None"
    proof cases
      case 1
      with Cons.IH obtain x y where "cs = x @ y" "lit_ci w Some y \<noteq> None" by blast
      then have "c # cs = (c # x) @ y \<and> lit_ci w Some y \<noteq> None" by simp
      then show ?thesis by blast
    next
      case 2
      then have "c # cs = [] @ (c # cs) \<and> lit_ci w Some (c # cs) \<noteq> None" by simp
      then show ?thesis by blast
    qed
  next
    assume "\<exists>x y. c # cs = x @ y \<and> lit_ci w Some y \<noteq> None"
    then obtain x y where h: "c # cs = x @ y" "lit_ci w Some y \<noteq> None" by blast
    show "any_then w (c # cs) \<noteq> None"
    proof (cases x)
      case Nil
      with h show ?thesis by (auto simp: any_then_Cons split: option.splits)
    next
      case (Cons c' x')
      with h have "cs = x' @ y" by simp
      with h(2) Cons.IH have "any_then w cs \<noteq> None" by blast
      then show ?thesis by (auto simp: any_then_Cons split: option.splits)
    qed
  qed
qed

lemma any_then_ext: "any_then w a \<noteq> None \<Longrightarrow> any_then w (a @ r) \<noteq> None"
proof -
  assume "any_then w a \<noteq> None"
  then obtain x y where "a = x @ y" "lit_ci w Some y \<noteq> None" using any_then_ex by blast
  then have "a @ r = x @ (y @ r) \<and> lit_ci w Some (y @ r) \<noteq> None" using lit_ci_ext by simp
  then show ?thesis using any_then_ex by blast
qed

section \<open>The envelope element\<close>

lemma envelope_element_eq:
  "envelope_element Some t = (case t of [] \<Rightarrow> None | c # u \<Rightarrow>
     if c = CHR ''<''
     then lit_ci '':Envelope'' (any_then (closing_tag (takeWhile (\<lambda>c. c \<noteq> CHR '':'') u)))
            (dropWhile (\<lambda>c. c \<noteq> CHR '':'') u)
     else None)"
proof (cases t)
  case Nil then show ?thesis by (simp add: envelope_element_def)
next
  case (Cons c u)
  have "star (\<lambda>c. c \<noteq> CHR '':'') (\<lambda>g1.
       lit_ci '':Envelope'' (star (\<lambda>c. True) (\<lambda>g2.
         lit_ci (''</'' @ g1 @ '':Envelope>'') Some) [])) [] u
     = lit_ci '':Envelope'' (any_then (closing_tag (takeWhile (\<lambda>c. c \<noteq> CHR '':'') u)))
            (dropWhile (\<lambda>c. c \<noteq> CHR '':'') u)"
    by (subst star_skip) (simp_all add: any_then_def closing_tag_def)
  then show ?thesis using Cons by (simp add: envelope_element_def)
qed

lemma split_colon:
  assumes "CHR '':'' \<notin> set g" "ci_eq e '':Envelope''"
  shows "takeWhile (\<lambda>c. c \<noteq> CHR '':'') (g @ e @ v) = g"
    and "dropWhile (\<lambda>c. c \<noteq> CHR '':'') (g @ e @ v) = e @ v"
proof -
  from assms(2) obtain e' where e: "e = CHR '':'' # e'"
    using ci_eq_Cons[of e "CHR '':''" "''Envelope''"] by auto
  have g: "\<And>x. x \<in> set g \<Longrightarrow> x \<noteq> CHR '':''" using assms(1) by auto
  show "takeWhile (\<lambda>c. c \<noteq> CHR '':'') (g @ e @ v) = g"
    using g e by (simp add: takeWhile_append2)
  show "dropWhile (\<lambda>c. c \<noteq> CHR '':'') (g @ e @ v) = e @ v"
    using g e by (simp add: dropWhile_append2)
qed

lemma envelope_element_Some:
  "envelope_element Some t = Some r \<longleftrightarrow>
     (\<exists>g e v. t = CHR ''<'' # g @ e @ v \<and> CHR '':'' \<notin> set g \<and>
        ci_eq e '':Envelope'' \<and> any_then (closing_tag g) v = Some r)"
proof
  assume h: "envelope_element Some t = Some r"
  then obtain u where t: "t = CHR ''<'' # u"
    by (auto simp: envelope_element_eq split: list.splits if_splits)
  let ?g = "takeWhile (\<lambda>c. c \<noteq> CHR '':'') u"
  from h t have "lit_ci '':Envelope'' (any_then (closing_tag ?g)) (dropWhile (\<lambda>c. c \<noteq> CHR '':'') u) = Some r"
    by (simp add: envelope_element_eq)
  then obtain e v where ev: "dropWhile (\<lambda>c. c \<noteq> CHR '':'') u = e @ v" "ci_eq e '':Envelope''"
     "any_then (closing_tag ?g) v = Some r" unfolding lit_ci_Some by blast
  have "u = ?g @ e @ v" using ev(1) takeWhile_dropWhile_id[of "\<lambda>c. c \<noteq> CHR '':''" u] by simp
  moreover have "CHR '':'' \<notin> set ?g" using set_takeWhileD by fastforce
  ultimately have "t = CHR ''<'' # ?g @ e @ v \<and> CHR '':'' \<notin> set ?g \<and> ci_eq e '':Envelope''
      \<and> any_then (closing_tag ?g) v = Some r"
    using t ev by simp
  then show "\<exists>g e v. t = CHR ''<'' # g @ e @ v \<and> CHR '':'' \<notin> set g \<and>
      ci_eq e '':Envelope'' \<and> any_then (closing_tag g) v = Some r" by blast
next
  assume "\<exists>g e v. t = CHR ''<'' # g @ e @ v \<and> CHR '':'' \<notin> set g \<and>
      ci_eq e '':Envelope'' \<and> any_then (closing_tag g) v = Some r"
  then obtain g e v where h: "t = CHR ''<'' # g @ e @ v" "CHR '':'' \<notin> set g"
      "ci_eq e '':Envelope''" "any_then (closing_tag g) v = Some r" by blast
  show "envelope_element Some t = Some r"
    using h split_colon[OF h(2) h(3), of v] lit_ci_append[OF h(3), of "any_then (closing_tag g)" v]
    by (simp add: envelope_element_eq)
qed

lemma envelope_element_trunc:
  "envelope_element Some t = Some r \<Longrightarrow> \<exists>m. t = m @ r \<and> envelope_element Some m = Some []"
proof -
  assume "envelope_element Some t = Some r"
  then obtain g e v where h: "t = CHR ''<'' # g @ e @ v" "CHR '':'' \<notin> set g"
      "ci_eq e '':Envelope''" "any_then (closing_tag g) v = Some r"
    unfolding envelope_element_Some by blast
  from any_then_trunc[OF h(4)] obtain a where a: "v = a @ r" "any_then (closing_tag g) a = Some []"
    by blast
  have "envelope_element Some (CHR ''<'' # g @ e @ a) = Some []"
    unfolding envelope_element_Some using h a by blast
  moreover have "t = (CHR ''<'' # g @ e @ a) @ r" using h a by simp
  ultimately show ?thesis by blast
qed

lemma envelope_element_ext:
  "envelope_element Some m = Some x \<Longrightarrow> \<exists>y. envelope_element Some (m @ r) = Some y"
proof -
  assume "envelope_element Some m = Some x"
  then obtain g e v where h: "m = CHR ''<'' # g @ e @ v" "CHR '':'' \<notin> set g"
      "ci_eq e '':Envelope''" "any_then (closing_tag g) v = Some x"
    unfolding envelope_element_Some by blast
  then have "any_then (closing_tag g) (v @ r) \<noteq> None" using any_then_ext[of "closing_tag g" v r] by simp
  then obtain y where "any_then (closing_tag g) (v @ r) = Some y" by blast
  then have "envelope_element Some (CHR ''<'' # g @ e @ (v @ r)) = Some y"
    unfolding envelope_element_Some using h by blast
  then show ?thesis using h by auto
qed

lemma envelope_element_head: "envelope_element Some t = Some r \<Longrightarrow> \<exists>u. t = CHR ''<'' # u"
  unfolding envelope_element_Some by blast

lemma envelope_element_space: "is_space c \<Longrightarrow> envelope_element Some (c # cs) = None"
  by (auto simp: envelope_element_eq dest: space_not_lt)

section \<open>The prolog and the whole expression\<close>

lemma star_space_envelope:
  "star is_space (\<lambda>_. envelope_element Some) [] = (\<lambda>u. envelope_element Some (dropWhile is_space u))"
proof
  fix u show "star is_space (\<lambda>_. envelope_element Some) [] u = envelope_element Some (dropWhile is_space u)"
    by (subst star_skip) (simp_all add: envelope_element_space)
qed

lemma star_question_mark:
  "star (\<lambda>c. c \<noteq> CHR ''?'') (\<lambda>_. lit_ci ''?>'' k) [] u
      = lit_ci ''?>'' k (dropWhile (\<lambda>c. c \<noteq> CHR ''?'') u)"
  by (subst star_skip) simp_all

lemma xml_prolog_envelope:
  "xml_prolog (envelope_element Some) t =
     (case after_prolog t of None \<Rightarrow> None | Some x \<Rightarrow> envelope_element Some x)"
  unfolding xml_prolog_def after_prolog_def star_question_mark star_space_envelope
  by (simp add: lit_ci_eq)

lemma envelope_regex_eq:
  "envelope_regex t = (case after_prolog t of None \<Rightarrow> envelope_element Some t
      | Some x \<Rightarrow> (case envelope_element Some x of None \<Rightarrow> envelope_element Some t | Some r \<Rightarrow> Some r))"
  by (simp add: envelope_regex_def opt_def xml_prolog_envelope split: option.splits)

lemma after_prolog_Some:
  assumes "after_prolog t = Some x"
  shows "\<exists>q ws. t = ''<?'' @ q @ ''?>'' @ ws @ x \<and> CHR ''?'' \<notin> set q \<and> (\<forall>c\<in>set ws. is_space c)"
proof -
  from assms obtain a t' where a: "t = a @ t'" "ci_eq a ''<?''"
     "lit_ci ''?>'' (\<lambda>t''. Some (dropWhile is_space t'')) (dropWhile (\<lambda>c. c \<noteq> CHR ''?'') t') = Some x"
    unfolding after_prolog_def lit_ci_Some by blast
  from a(3) obtain b t'' where b0: "dropWhile (\<lambda>c. c \<noteq> CHR ''?'') t' = b @ t''" "ci_eq b ''?>''"
     "Some (dropWhile is_space t'') = Some x" unfolding lit_ci_Some by blast
  then have b: "dropWhile (\<lambda>c. c \<noteq> CHR ''?'') t' = b @ t''" "ci_eq b ''?>''"
     "dropWhile is_space t'' = x" by simp_all
  have a': "a = ''<?''" using a(2) by (rule ci_eq_open)
  have b': "b = ''?>''" using b(2) by (rule ci_eq_close)
  let ?q = "takeWhile (\<lambda>c. c \<noteq> CHR ''?'') t'"
  let ?ws = "takeWhile is_space t''"
  have "t' = ?q @ b @ t''" using b(1) takeWhile_dropWhile_id[of "\<lambda>c. c \<noteq> CHR ''?''" t'] by simp
  moreover have "t'' = ?ws @ x" using b(3) takeWhile_dropWhile_id[of is_space t''] by simp
  moreover have "CHR ''?'' \<notin> set ?q" using set_takeWhileD by fastforce
  moreover have "\<forall>c\<in>set ?ws. is_space c" using set_takeWhileD by fastforce
  ultimately have "t = ''<?'' @ ?q @ ''?>'' @ ?ws @ x \<and> CHR ''?'' \<notin> set ?q \<and> (\<forall>c\<in>set ?ws. is_space c)"
    using a(1) a' b' by auto
  then show ?thesis by blast
qed

lemma after_prolog_intro:
  assumes "CHR ''?'' \<notin> set q" "\<forall>c\<in>set ws. is_space c"
  shows "after_prolog (''<?'' @ q @ ''?>'' @ ws @ CHR ''<'' # y) = Some (CHR ''<'' # y)"
proof -
  have q: "\<And>x. x \<in> set q \<Longrightarrow> x \<noteq> CHR ''?''" using assms(1) by auto
  have 1: "dropWhile (\<lambda>c. c \<noteq> CHR ''?'') (q @ ''?>'' @ ws @ CHR ''<'' # y) = ''?>'' @ ws @ CHR ''<'' # y"
    using q by (simp add: dropWhile_append2)
  have 2: "dropWhile is_space (ws @ CHR ''<'' # y) = CHR ''<'' # y"
    using assms(2) by (simp add: dropWhile_append2 is_space_def)
  have A: "\<And>K U. lit_ci ''<?'' K (''<?'' @ U) = K U" by (rule lit_ci_append) simp
  have B: "\<And>K U. lit_ci ''?>'' K (''?>'' @ U) = K U" by (rule lit_ci_append) simp
  show ?thesis unfolding after_prolog_def A 1 B 2 ..
qed

lemma envelope_regex_trunc:
  assumes "envelope_regex t = Some r"
  shows "\<exists>m. t = m @ r \<and> envelope_regex m = Some []"
proof (cases "\<exists>x r'. after_prolog t = Some x \<and> envelope_element Some x = Some r'")
  case True
  then obtain x r' where x: "after_prolog t = Some x" "envelope_element Some x = Some r'" by blast
  with assms have "r' = r" by (simp add: envelope_regex_eq)
  with x envelope_element_trunc obtain m' where m': "x = m' @ r" "envelope_element Some m' = Some []"
    by blast
  from envelope_element_head[OF m'(2)] obtain y where y: "m' = CHR ''<'' # y" by blast
  from after_prolog_Some[OF x(1)] obtain q ws where
    p: "t = ''<?'' @ q @ ''?>'' @ ws @ x" "CHR ''?'' \<notin> set q" "\<forall>c\<in>set ws. is_space c" by blast
  have "after_prolog (''<?'' @ q @ ''?>'' @ ws @ m') = Some m'"
    using after_prolog_intro[OF p(2) p(3)] y by simp
  then have "envelope_regex (''<?'' @ q @ ''?>'' @ ws @ m') = Some []"
    using m'(2) by (simp add: envelope_regex_eq)
  moreover have "t = (''<?'' @ q @ ''?>'' @ ws @ m') @ r" using p(1) m'(1) by simp
  ultimately show ?thesis by blast
next
  case False
  with assms have Et: "envelope_element Some t = Some r"
    by (auto simp: envelope_regex_eq split: option.splits)
  then obtain m where m: "t = m @ r" "envelope_element Some m = Some []"
    using envelope_element_trunc by blast
  have "\<not> (\<exists>x r'. after_prolog m = Some x \<and> envelope_element Some x = Some r')"
  proof
    assume "\<exists>x r'. after_prolog m = Some x \<and> envelope_element Some x = Some r'"
    then obtain x r' where x: "after_prolog m = Some x" "envelope_element Some x = Some r'" by blast
    from envelope_element_head[OF x(2)] obtain y where y: "x = CHR ''<'' # y" by blast
    from after_prolog_Some[OF x(1)] obtain q ws where
      p: "m = ''<?'' @ q @ ''?>'' @ ws @ x" "CHR ''?'' \<notin> set q" "\<forall>c\<in>set ws. is_space c" by blast
    have "after_prolog (''<?'' @ q @ ''?>'' @ ws @ CHR ''<'' # (y @ r)) = Some (CHR ''<'' # (y @ r))"
      by (rule after_prolog_intro[OF p(2) p(3)])
    then have "after_prolog t = Some (x @ r)" using m(1) p(1) y by simp
    moreover obtain z where "envelope_element Some (x @ r) = Some z"
      using envelope_element_ext[OF x(2)] by blast
    ultimately show False using False by blast
  qed
  then have "envelope_regex m = Some []" using m(2)
    by (auto simp: envelope_regex_eq split: option.splits)
  with m(1) show ?thesis by blast
qed

section \<open>The leftmost match\<close>

lemma re_exec_Some: "re_exec f s = Some (t, r) \<Longrightarrow> f t = Some r \<and> (\<exists>pre. s = pre @ t)"
proof (induction s)
  case Nil then show ?case by (auto split: option.splits)
next
  case (Cons c cs)
  show ?case
  proof (cases "f (c # cs)")
    case None
    with Cons.prems have "re_exec f cs = Some (t, r)" by simp
    with Cons.IH obtain pre where "f t = Some r" "cs = pre @ t" by blast
    then have "f t = Some r \<and> c # cs = (c # pre) @ t" by simp
    then show ?thesis by blast
  next
    case (Some a)
    with Cons.prems show ?thesis by auto
  qed
qed

lemma re_exec_here: "f t = Some r \<Longrightarrow> re_exec f t = Some (t, r)"
  by (cases t) simp_all

lemma re_exec_complete: "f t \<noteq> None \<Longrightarrow> re_exec f (pre @ t) \<noteq> None"
proof (induction pre)
  case Nil
  then obtain r where "f t = Some r" by blast
  then show ?case using re_exec_here[of f t r] by simp
next
  case (Cons c pre)
  then show ?case by (cases "f (c # pre @ t)") simp_all
qed

lemma match0_idem:
  assumes "match0 envelope_regex s = Some m"
  shows "match0 envelope_regex m = Some m"
proof -
  from assms obtain t r where tr: "re_exec envelope_regex s = Some (t, r)"
     "m = take (length t - length r) t"
    by (auto simp: match0_def split: option.splits)
  then have "envelope_regex t = Some r" using re_exec_Some[of envelope_regex s t r] by simp
  then obtain m' where m': "t = m' @ r" "envelope_regex m' = Some []"
    using envelope_regex_trunc by blast
  then have "m = m'" using tr(2) by simp
  then have "re_exec envelope_regex m = Some (m, [])"
    using re_exec_here[of envelope_regex m' "[]"] m'(2) by simp
  then show ?thesis by (simp add: match0_def)
qed

section \<open>The expression and the texts it denotes\<close>

lemma envelope_element_sound:
  assumes "envelope_element Some t = Some r"
  shows "\<exists>m. t = m @ r \<and> is_envelope_element m"
proof -
  from assms obtain g e v where h: "t = CHR ''<'' # g @ e @ v" "CHR '':'' \<notin> set g"
      "ci_eq e '':Envelope''" "any_then (closing_tag g) v = Some r"
    unfolding envelope_element_Some by blast
  from any_then_split[OF h(4)] obtain mid w' where w: "v = mid @ w' @ r" "ci_eq w' (closing_tag g)"
    by blast
  let ?a = "take 2 w'" and ?g' = "take (length g) (drop 2 w')" and ?e' = "drop (length g) (drop 2 w')"
  have len: "length w' = 2 + length g + 10" using ci_eq_length[OF w(2)] by (simp add: closing_tag_def)
  have w': "w' = ?a @ ?g' @ ?e'" by (simp only: append_take_drop_id)
  have "map canonicalize w' = map canonicalize ''</'' @ map canonicalize g @ map canonicalize '':Envelope>''"
    using w(2) by (simp add: closing_tag_def)
  then have c: "map canonicalize ?a @ map canonicalize ?g' @ map canonicalize ?e'
      = map canonicalize ''</'' @ map canonicalize g @ map canonicalize '':Envelope>''"
    using w' by (metis map_append)
  have la: "length (map canonicalize ?a) = length (map canonicalize ''</'')" using len by simp
  from c la have a: "ci_eq ?a ''</''" and c2: "map canonicalize ?g' @ map canonicalize ?e'
      = map canonicalize g @ map canonicalize '':Envelope>''"
    by (metis append_eq_append_conv)+
  have lg: "length (map canonicalize ?g') = length (map canonicalize g)" using len by simp
  from c2 lg have g': "ci_eq ?g' g" and e': "ci_eq ?e' '':Envelope>''"
    by (metis append_eq_append_conv)+
  have "?a = ''</''" using a by (rule ci_eq_lt_slash)
  then have "w' = ''</'' @ ?g' @ ?e'" using w' by metis
  then have "CHR ''<'' # g @ e @ mid @ w' = ''<'' @ g @ e @ mid @ ''</'' @ ?g' @ ?e'" by simp
  then have "is_envelope_element (CHR ''<'' # g @ e @ mid @ w')"
    unfolding is_envelope_element_def using h(2,3) g' e' by blast
  moreover have "t = (CHR ''<'' # g @ e @ mid @ w') @ r" using h(1) w(1) by simp
  ultimately show ?thesis by blast
qed

lemma envelope_element_complete:
  assumes "is_envelope_element m"
  shows "envelope_element Some m = Some []"
proof -
  from assms obtain g e mid g' e' where h: "m = ''<'' @ g @ e @ mid @ ''</'' @ g' @ e'"
    "CHR '':'' \<notin> set g" "ci_eq e '':Envelope''" "ci_eq g' g" "ci_eq e' '':Envelope>''"
    unfolding is_envelope_element_def by blast
  have "ci_eq (''</'' @ g' @ e') (closing_tag g)" using h(4,5) by (simp add: closing_tag_def)
  then have "lit_ci (closing_tag g) Some (''</'' @ g' @ e') = Some []"
    using lit_ci_append[of "''</'' @ g' @ e'" "closing_tag g" Some "[]"] by simp
  then have "any_then (closing_tag g) (mid @ ''</'' @ g' @ e') = Some []" by (rule any_then_suffix)
  then have "envelope_element Some (CHR ''<'' # g @ e @ (mid @ ''</'' @ g' @ e')) = Some []"
    unfolding envelope_element_Some using h(2,3) by blast
  then show ?thesis using h(1) by simp
qed

lemma envelope_regex_sound:
  assumes "envelope_regex t = Some r"
  shows "\<exists>p m. t = p @ m @ r \<and> (p = [] \<or> is_xml_prolog p) \<and> is_envelope_element m"
proof (cases "\<exists>x. after_prolog t = Some x \<and> envelope_element Some x = Some r")
  case True
  then obtain x where x: "after_prolog t = Some x" "envelope_element Some x = Some r" by blast
  from envelope_element_sound[OF x(2)] obtain m where m: "x = m @ r" "is_envelope_element m" by blast
  from after_prolog_Some[OF x(1)] obtain q ws where
    p: "t = ''<?'' @ q @ ''?>'' @ ws @ x" "CHR ''?'' \<notin> set q" "\<forall>c\<in>set ws. is_space c" by blast
  have "is_xml_prolog (''<?'' @ q @ ''?>'' @ ws)" unfolding is_xml_prolog_def using p(2,3) by blast
  moreover have "t = (''<?'' @ q @ ''?>'' @ ws) @ m @ r" using p(1) m(1) by simp
  ultimately show ?thesis using m(2) by blast
next
  case False
  with assms have "envelope_element Some t = Some r"
    by (auto simp: envelope_regex_eq split: option.splits)
  from envelope_element_sound[OF this] obtain m where "t = m @ r" "is_envelope_element m" by blast
  then have "t = [] @ m @ r \<and> is_envelope_element m" by simp
  then show ?thesis by blast
qed

lemma envelope_regex_complete:
  assumes "is_envelope_element m"
  shows "envelope_regex (m @ post) \<noteq> None"
proof -
  obtain y where "envelope_element Some (m @ post) = Some y"
    using envelope_element_ext[OF envelope_element_complete[OF assms]] by blast
  then show ?thesis by (auto simp: envelope_regex_eq split: option.splits)
qed

lemma envelope_pattern_matches_iff:
  "envelope_pattern_matches s \<longleftrightarrow> match0 envelope_regex s \<noteq> None"
proof
  assume "envelope_pattern_matches s"
  then obtain pre p m post where h: "s = pre @ p @ m @ post" "is_envelope_element m"
    unfolding envelope_pattern_matches_def by blast
  have "re_exec envelope_regex ((pre @ p) @ (m @ post)) \<noteq> None"
    by (rule re_exec_complete) (rule envelope_regex_complete[OF h(2)])
  then show "match0 envelope_regex s \<noteq> None"
    using h(1) by (auto simp: match0_def split: option.splits)
next
  assume "match0 envelope_regex s \<noteq> None"
  then obtain t r where tr: "re_exec envelope_regex s = Some (t, r)"
    by (auto simp: match0_def split: option.splits)
  from re_exec_Some[OF tr] obtain pre where t: "envelope_regex t = Some r" "s = pre @ t" by blast
  from envelope_regex_sound[OF t(1)] obtain p m where
    "t = p @ m @ r" "p = [] \<or> is_xml_prolog p" "is_envelope_element m" by blast
  then show "envelope_pattern_matches s"
    unfolding envelope_pattern_matches_def using t(2) by blast
qed

section \<open>The envelope extraction: results\<close>

text \<open>
  Claim C5. On the body \<^verbatim>\<open>garbage<?xml version="1.0"?>  <soap:Envelope>...</soap:Envelope>trailing\<close>
  the extraction returns the prolog, the white space after it and the envelope element,
  without the text before the prolog and after the closing tag; and a text in which the
  pattern matches nowhere is returned unchanged.
\<close>

theorem handleResponse_extracts_envelope:
  "handleResponse (Str ''garbage<?xml version=\"1.0\"?>  <soap:Envelope>...</soap:Envelope>trailing'')
     = Str ''<?xml version=\"1.0\"?>  <soap:Envelope>...</soap:Envelope>''
   \<and> (\<forall>s. \<not> envelope_pattern_matches s \<longrightarrow> handleResponse (Str s) = Str s)"
proof
  show "handleResponse (Str ''garbage<?xml version=\"1.0\"?>  <soap:Envelope>...</soap:Envelope>trailing'')
     = Str ''<?xml version=\"1.0\"?>  <soap:Envelope>...</soap:Envelope>''"
    by code_simp
next
  show "\<forall>s. \<not> envelope_pattern_matches s \<longrightarrow> handleResponse (Str s) = Str s"
    by (simp add: envelope_pattern_matches_iff handleResponse_def)
qed

theorem handleResponse_extracts_envelope_witness:
  "\<not> envelope_pattern_matches ''<soap:Envelope>unterminated''
   \<and> handleResponse (Str ''<soap:Envelope>unterminated'') = Str ''<soap:Envelope>unterminated''"
proof -
  have "match0 envelope_regex ''<soap:Envelope>unterminated'' = None" by code_simp
  then have h: "\<not> envelope_pattern_matches ''<soap:Envelope>unterminated''"
    by (simp add: envelope_pattern_matches_iff)
  then show ?thesis using handleResponse_extracts_envelope by blast
qed

text \<open>
  Claim C9. The extraction of the older client and the extraction of the newer,
  attachment-capable client return the same result on every body.
\<close>

theorem handleResponse_versions_agree: "handleResponse_v1 body = handleResponse body"
proof -
  have "envelope_regex =
      opt (\<lambda>k. lit_ci ''<?'' (star (\<lambda>c. c \<noteq> CHR ''?'') (\<lambda>_.
                    lit_ci ''?>'' (star is_space (\<lambda>_. k) [])) []))
               (lit_ci ''<'' (star (\<lambda>c. c \<noteq> CHR '':'') (\<lambda>g1.
                  lit_ci '':Envelope'' (star (\<lambda>c. True) (\<lambda>g2.
                    lit_ci (''</'' @ g1 @ '':Envelope>'') Some) [])) []))"
    unfolding envelope_regex_def envelope_element_def
    by (rule arg_cong2[where f = opt]) (auto simp: xml_prolog_def fun_eq_iff)
  then show ?thesis
    by (cases body) (simp_all add: handleResponse_v1_def handleResponse_def)
qed

text \<open>
  Claim C10. The extraction is idempotent on every string body: extracting from the
  extracted text gives the extracted text again.
\<close>

theorem handleResponse_idempotent:
  "handleResponse (handleResponse (Str b)) = handleResponse (Str b)"
proof (cases "match0 envelope_regex b")
  case None
  then show ?thesis by (simp add: handleResponse_def)
next
  case (Some m)
  then show ?thesis using match0_idem[OF Some] by (simp add: handleResponse_def)
qed

section \<open>Building the request: results\<close>

lemma map_of_assign_all:
  "k \<notin> fst ` set src \<Longrightarrow> map_of (assign_all target src) k = map_of target k"
proof (induction src arbitrary: target)
  case Nil then show ?case by (simp add: assign_all_def)
next
  case (Cons kv src)
  obtain k' v' where kv: "kv = (k', v')" by (cases kv)
  have "assign_all target (kv # src) = assign_all (AList.update k' v' target) src"
    by (simp add: assign_all_def kv)
  moreover have "k \<noteq> k'" "k \<notin> fst ` set src" using Cons.prems kv by auto
  ultimately show ?case using Cons.IH[of "AList.update k' v' target"]
    by (simp add: update_conv')
qed

lemma obj_get_assign_all:
  "k \<notin> fst ` set src \<Longrightarrow> obj_get (assign_all target src) k = obj_get target k"
  by (simp add: obj_get_def map_of_assign_all)

lemma not_in_filter: "k \<notin> fst ` set kvs \<Longrightarrow> k \<notin> fst ` set (filter P kvs)"
  by auto

lemma isEmpty_or: "isEmpty (if truthy a then a else Obj []) = isEmpty a"
  by (cases a) auto

lemma obj_get_update: "obj_get (AList.update k v ob) k' = (if k' = k then v else obj_get ob k')"
  by (simp add: obj_get_def update_conv')

lemma obj_get_delete: "obj_get (AList.delete k ob) k' = (if k' = k then Undefined else obj_get ob k')"
  by (simp add: obj_get_def delete_conv')

lemma buildRequest_method_field:
  assumes "''method'' \<notin> fst ` set (or_empty exoptions)"
  shows "obj_get (buildRequest VERSION uuid1 uuid2 curl data exheaders exoptions) ''method''
           = Str (if truthy data then ''POST'' else ''GET'')"
  unfolding buildRequest_def Let_def
  by (simp add: obj_get_assign_all[OF not_in_filter[OF assms]] obj_get_update split: prod.splits)
     (simp add: obj_get_def)

lemma not_isEmpty_truthy: "\<not> isEmpty a \<Longrightarrow> truthy a"
  by (cases a) auto

lemma buildRequest_multipart_field:
  assumes "''multipart'' \<notin> fst ` set (or_empty exoptions)"
  shows "obj_get (buildRequest VERSION uuid1 uuid2 curl data exheaders exoptions) ''multipart''
           = (if isEmpty (obj_get (or_empty exoptions) ''attachments'') then Undefined
              else Arr (envelope_part uuid1 data
                     # map attachment_part (own_entries (obj_get (or_empty exoptions) ''attachments''))))"
  unfolding buildRequest_def Let_def
  by (simp add: obj_get_assign_all[OF not_in_filter[OF assms]] obj_get_update isEmpty_or
        not_isEmpty_truthy split: prod.splits)
     (auto simp: obj_get_def not_isEmpty_truthy)

lemma buildRequest_body_field:
  assumes "''body'' \<notin> fst ` set (or_empty exoptions)"
  shows "map_of (buildRequest VERSION uuid1 uuid2 curl data exheaders exoptions) ''body''
           = (if isEmpty (obj_get (or_empty exoptions) ''attachments'')
                \<and> obj_get (merged_headers VERSION curl exheaders) ''Connection'' = Str ''keep-alive''
              then Some data else None)"
  unfolding buildRequest_def Let_def merged_headers_def
  by (simp add: map_of_assign_all[OF not_in_filter[OF assms]] obj_get_update obj_get_delete isEmpty_or
        update_conv' split: prod.splits)

lemma buildRequest_headers_field:
  assumes "''headers'' \<notin> fst ` set (or_empty exoptions)"
  shows "\<exists>hs. obj_get (buildRequest VERSION uuid1 uuid2 curl data exheaders exoptions) ''headers'' = Obj hs
      \<and> obj_get hs ''Connection'' = obj_get (merged_headers VERSION curl exheaders) ''Connection''
      \<and> (\<not> isEmpty (obj_get (or_empty exoptions) ''attachments'') \<longrightarrow>
           obj_get hs ''content-type'' = Str (''multipart/related; boundary='' @ uuid2
                           @ ''; type=\"application/soap+xml\"; start=\"<'' @ uuid1 @ ''>\"''))"
  unfolding buildRequest_def Let_def merged_headers_def
  by (simp add: obj_get_assign_all[OF not_in_filter[OF assms]] obj_get_update obj_get_delete isEmpty_or
        split: prod.splits)
     (auto simp: obj_get_def update_conv' delete_conv')

text \<open>
  Claim C7, as stated, fails: the extra options are copied over the request descriptor
  last, so an own \<^verbatim>\<open>method\<close> property replaces the computed method.
\<close>

theorem buildRequest_method_counterexample:
  "isEmpty (obj_get (or_empty (Some [(''attachments'', Obj []), (''method'', Str ''PUT'')])) ''attachments'')
   \<and> \<not> truthy Undefined
   \<and> obj_get (buildRequest ''1.0.0'' ''u1'' ''u2'' example_url Undefined None
         (Some [(''attachments'', Obj []), (''method'', Str ''PUT'')])) ''method'' \<noteq> Str ''GET''"
  by code_simp

text \<open>
  Claim C7, amended. For extra options with an empty attachment map and without an own
  \<^verbatim>\<open>method\<close> property, whatever the URL and the extra headers: the method is GET
  if and only if the payload is falsy (undefined, null, the empty string), and POST
  otherwise.
\<close>

theorem buildRequest_method:
  assumes "isEmpty (obj_get (or_empty exoptions) ''attachments'')"
    and "''method'' \<notin> fst ` set (or_empty exoptions)"
  shows "(obj_get (buildRequest VERSION uuid1 uuid2 curl data exheaders exoptions) ''method'' = Str ''GET''
            \<longleftrightarrow> \<not> truthy data)
       \<and> (obj_get (buildRequest VERSION uuid1 uuid2 curl data exheaders exoptions) ''method'' = Str ''POST''
            \<longleftrightarrow> truthy data)"
proof -
  have m: "obj_get (buildRequest VERSION uuid1 uuid2 curl data exheaders exoptions) ''method''
             = Str (if truthy data then ''POST'' else ''GET'')"
    by (rule buildRequest_method_field[OF assms(2)])
  show ?thesis unfolding m by simp
qed

theorem buildRequest_method_witness:
  "isEmpty (obj_get (or_empty (Some [(''attachments'', Obj []), (''timeout'', Num 5000)])) ''attachments'')
   \<and> ''method'' \<notin> fst ` set (or_empty (Some [(''attachments'', Obj []), (''timeout'', Num 5000)]))
   \<and> obj_get (buildRequest ''1.0.0'' ''u1'' ''u2'' example_url (Str ''<x/>'')
         (Some [(''SOAPAction'', Str ''op'')])
         (Some [(''attachments'', Obj []), (''timeout'', Num 5000)])) ''method'' = Str ''POST''
   \<and> obj_get (buildRequest ''1.0.0'' ''u1'' ''u2'' example_url (Str '''')
         (Some [(''SOAPAction'', Str ''op'')])
         (Some [(''attachments'', Obj []), (''timeout'', Num 5000)])) ''method'' = Str ''GET''"
proof -
  have h1: "isEmpty (obj_get (or_empty (Some [(''attachments'', Obj []), (''timeout'', Num 5000)])) ''attachments'')"
    by (simp add: or_empty_def obj_get_def)
  have h2: "''method'' \<notin> fst ` set (or_empty (Some [(''attachments'', Obj []), (''timeout'', Num 5000)]))"
    by (simp add: or_empty_def)
  show ?thesis
    using h1 h2
      buildRequest_method[OF h1 h2, of "''1.0.0''" "''u1''" "''u2''" example_url "Str ''<x/>''" "Some [(''SOAPAction'', Str ''op'')]"]
      buildRequest_method[OF h1 h2, of "''1.0.0''" "''u1''" "''u2''" example_url "Str ''''" "Some [(''SOAPAction'', Str ''op'')]"]
    by simp
qed

text \<open>
  Claim C8, as stated, fails: without attachments and without a kept-alive connection
  the request descriptor has neither a body nor a part list.
\<close>

theorem buildRequest_body_or_multipart_counterexample:
  "\<not> populated (buildRequest ''1.0.0'' ''u1'' ''u2'' example_url (Str ''<x/>'') None None) ''body''
   \<and> \<not> populated (buildRequest ''1.0.0'' ''u1'' ''u2'' example_url (Str ''<x/>'') None None) ''multipart''"
  by code_simp

text \<open>
  Claim C8, amended. For extra options without own properties \<^verbatim>\<open>body\<close>,
  \<^verbatim>\<open>multipart\<close> and \<^verbatim>\<open>headers\<close>: the request descriptor never has both a body and
  a part list; it has a part list exactly when the attachment map is not empty; it has a
  body exactly when the attachment map is empty, the \<^verbatim>\<open>Connection\<close> header is
  \<^verbatim>\<open>keep-alive\<close> and the payload is neither undefined nor null; and exactly when the
  attachment map is empty and the connection is not kept alive, it has neither and
  \<^verbatim>\<open>request\<close> hands the payload to \<^verbatim>\<open>req.end\<close>.
\<close>

theorem buildRequest_body_or_multipart:
  assumes "''body'' \<notin> fst ` set (or_empty exoptions)"
    and "''multipart'' \<notin> fst ` set (or_empty exoptions)"
    and "''headers'' \<notin> fst ` set (or_empty exoptions)"
  shows "(let options = buildRequest VERSION uuid1 uuid2 curl data exheaders exoptions;
              attachments = obj_get (or_empty exoptions) ''attachments'';
              connection = property (obj_get options ''headers'') ''Connection''
          in \<not> (populated options ''body'' \<and> populated options ''multipart'')
           \<and> (populated options ''multipart'' \<longleftrightarrow> \<not> isEmpty attachments)
           \<and> (populated options ''body'' \<longleftrightarrow>
                 isEmpty attachments \<and> connection = Str ''keep-alive''
                 \<and> data \<noteq> Undefined \<and> data \<noteq> Null)
           \<and> (request_end options data exoptions = End data \<longleftrightarrow>
                 isEmpty attachments \<and> connection \<noteq> Str ''keep-alive''))"
proof -
  let ?o = "buildRequest VERSION uuid1 uuid2 curl data exheaders exoptions"
  let ?a = "obj_get (or_empty exoptions) ''attachments''"
  let ?c = "obj_get (merged_headers VERSION curl exheaders) ''Connection''"
  from buildRequest_headers_field[OF assms(3), of VERSION uuid1 uuid2 curl data exheaders]
  obtain hs where hs: "obj_get ?o ''headers'' = Obj hs" "obj_get hs ''Connection'' = ?c" by blast
  have b: "obj_get ?o ''body'' = (if isEmpty ?a \<and> ?c = Str ''keep-alive'' then data else Undefined)"
    by (simp add: obj_get_def buildRequest_body_field[OF assms(1)])
  have m: "obj_get ?o ''multipart'' = (if isEmpty ?a then Undefined
              else Arr (envelope_part uuid1 data # map attachment_part (own_entries ?a)))"
    by (rule buildRequest_multipart_field[OF assms(2)])
  have e: "request_end ?o data exoptions =
      (if isEmpty ?a then (if ?c \<noteq> Str ''keep-alive'' then End data else NotCalled) else NotCalled)"
    by (simp add: request_end_def hs)
  show ?thesis
    unfolding Let_def populated_def b m e hs property.simps by auto
qed

theorem buildRequest_body_or_multipart_witness:
  "''body'' \<notin> fst ` set (or_empty (Some [(''attachments'', Obj [(''a1'', Str ''bin'')])]))
   \<and> ''multipart'' \<notin> fst ` set (or_empty (Some [(''attachments'', Obj [(''a1'', Str ''bin'')])]))
   \<and> ''headers'' \<notin> fst ` set (or_empty (Some [(''attachments'', Obj [(''a1'', Str ''bin'')])]))
   \<and> populated (buildRequest ''1.0.0'' ''u1'' ''u2'' example_url (Str ''<x/>'') None
         (Some [(''attachments'', Obj [(''a1'', Str ''bin'')])])) ''multipart''
   \<and> \<not> populated (buildRequest ''1.0.0'' ''u1'' ''u2'' example_url (Str ''<x/>'') None
         (Some [(''attachments'', Obj [(''a1'', Str ''bin'')])])) ''body''"
proof -
  let ?e = "Some [(''attachments'', Obj [(''a1'', Str ''bin'')])]"
  have h1: "''body'' \<notin> fst ` set (or_empty ?e)" by (simp add: or_empty_def)
  have h2: "''multipart'' \<notin> fst ` set (or_empty ?e)" by (simp add: or_empty_def)
  have h3: "''headers'' \<notin> fst ` set (or_empty ?e)" by (simp add: or_empty_def)
  have a: "\<not> isEmpty (obj_get (or_empty ?e) ''attachments'')" by (simp add: or_empty_def obj_get_def)
  show ?thesis
    using h1 h2 h3 a
      buildRequest_body_or_multipart[OF h1 h2 h3, of "''1.0.0''" "''u1''" "''u2''" example_url "Str ''<x/>''" None]
    by (simp add: Let_def)
qed

text \<open>
  Claim C1, as stated, fails: the extra options that carry the attachment map are copied
  over the request descriptor last, so an own \<^verbatim>\<open>body\<close> property gives the multipart
  request a single body as well.
\<close>

theorem buildRequest_with_attachments_counterexample:
  "\<not> isEmpty (obj_get (or_empty (Some [(''attachments'', Obj [(''a1'', Str ''bin'')]),
                                        (''body'', Str ''raw'')])) ''attachments'')
   \<and> map_of (buildRequest ''1.0.0'' ''u1'' ''u2'' example_url (Str ''<x/>'') None
         (Some [(''attachments'', Obj [(''a1'', Str ''bin'')]), (''body'', Str ''raw'')])) ''body''
       = Some (Str ''raw'')"
  by code_simp

text \<open>
  Claim C1, amended. For every non-empty attachment map passed in extra options that have
  no own properties \<^verbatim>\<open>body\<close>, \<^verbatim>\<open>headers\<close> and \<^verbatim>\<open>multipart\<close>: the request
  descriptor has no body field; its \<^verbatim>\<open>content-type\<close> header contains
  \<^verbatim>\<open>multipart/related\<close> and its \<^verbatim>\<open>start=\<close> parameter is the content-id of the first
  part; the first part carries the payload as its body; and the parts after it are, in
  the order of the map, one per entry, with the entry's key between angle brackets as
  content-id and the entry's value as body.
\<close>

theorem buildRequest_with_attachments:
  assumes "obj_get (or_empty exoptions) ''attachments'' = Obj atts"
    and "atts \<noteq> []"
    and "''body'' \<notin> fst ` set (or_empty exoptions)"
    and "''headers'' \<notin> fst ` set (or_empty exoptions)"
    and "''multipart'' \<notin> fst ` set (or_empty exoptions)"
  shows "\<exists>hs ct env rest cid.
       map_of (buildRequest VERSION uuid1 uuid2 curl data exheaders exoptions) ''body'' = None
     \<and> obj_get (buildRequest VERSION uuid1 uuid2 curl data exheaders exoptions) ''headers'' = Obj hs
     \<and> obj_get (buildRequest VERSION uuid1 uuid2 curl data exheaders exoptions) ''multipart''
         = Arr (env # rest)
     \<and> obj_get hs ''content-type'' = Str ct
     \<and> contains ct ''multipart/related''
     \<and> ct = ''multipart/related; boundary='' @ uuid2
              @ ''; type=\"application/soap+xml\"; start=\"'' @ cid @ ''\"''
     \<and> property env ''content-id'' = Str cid
     \<and> property env ''body'' = data
     \<and> map (\<lambda>p. property p ''content-id'') rest = map (\<lambda>kv. Str (''<'' @ fst kv @ ''>'')) atts
     \<and> map (\<lambda>p. property p ''body'') rest = map snd atts"
proof -
  let ?o = "buildRequest VERSION uuid1 uuid2 curl data exheaders exoptions"
  let ?ct = "''multipart/related; boundary='' @ uuid2
              @ ''; type=\"application/soap+xml\"; start=\"<'' @ uuid1 @ ''>\"''"
  have ne: "\<not> isEmpty (obj_get (or_empty exoptions) ''attachments'')" using assms(1,2) by simp
  from buildRequest_headers_field[OF assms(4), of VERSION uuid1 uuid2 curl data exheaders] ne
  obtain hs where hs: "obj_get ?o ''headers'' = Obj hs" "obj_get hs ''content-type'' = Str ?ct"
    by blast
  have b: "map_of ?o ''body'' = None"
    using ne by (simp add: buildRequest_body_field[OF assms(3)])
  have m: "obj_get ?o ''multipart'' = Arr (envelope_part uuid1 data # map attachment_part atts)"
    using ne assms(1) by (simp add: buildRequest_multipart_field[OF assms(5)])
  have c: "contains ?ct ''multipart/related''"
    unfolding contains_def
    by (rule exI[of _ "[]"], rule exI[of _ "''; boundary='' @ uuid2
              @ ''; type=\"application/soap+xml\"; start=\"<'' @ uuid1 @ ''>\"''"]) simp
  have e: "property (envelope_part uuid1 data) ''content-id'' = Str (''<'' @ uuid1 @ ''>'')"
      "property (envelope_part uuid1 data) ''body'' = data"
    by (simp_all add: envelope_part_def obj_get_def)
  have r: "map (\<lambda>p. property p ''content-id'') (map attachment_part atts)
             = map (\<lambda>kv. Str (''<'' @ fst kv @ ''>'')) atts"
      "map (\<lambda>p. property p ''body'') (map attachment_part atts) = map snd atts"
    by (simp_all add: attachment_part_def obj_get_def)
  have "map_of ?o ''body'' = None \<and> obj_get ?o ''headers'' = Obj hs
     \<and> obj_get ?o ''multipart'' = Arr (envelope_part uuid1 data # map attachment_part atts)
     \<and> obj_get hs ''content-type'' = Str ?ct
     \<and> contains ?ct ''multipart/related''
     \<and> ?ct = ''multipart/related; boundary='' @ uuid2
              @ ''; type=\"application/soap+xml\"; start=\"'' @ (''<'' @ uuid1 @ ''>'') @ ''\"''
     \<and> property (envelope_part uuid1 data) ''content-id'' = Str (''<'' @ uuid1 @ ''>'')
     \<and> property (envelope_part uuid1 data) ''body'' = data
     \<and> map (\<lambda>p. property p ''content-id'') (map attachment_part atts)
           = map (\<lambda>kv. Str (''<'' @ fst kv @ ''>'')) atts
     \<and> map (\<lambda>p. property p ''body'') (map attachment_part atts) = map snd atts"
    using b hs m c e r by simp
  then show ?thesis by blast
qed

theorem buildRequest_with_attachments_witness:
  "obj_get (or_empty (Some [(''attachments'', Obj [(''a1'', Str ''bin1''), (''a2'', Str ''bin2'')])]))
      ''attachments'' = Obj [(''a1'', Str ''bin1''), (''a2'', Str ''bin2'')]
   \<and> [(''a1'', Str ''bin1''), (''a2'', Str ''bin2'')] \<noteq> []
   \<and> ''body'' \<notin> fst ` set (or_empty (Some [(''attachments'', Obj [(''a1'', Str ''bin1''), (''a2'', Str ''bin2'')])]))
   \<and> ''headers'' \<notin> fst ` set (or_empty (Some [(''attachments'', Obj [(''a1'', Str ''bin1''), (''a2'', Str ''bin2'')])]))
   \<and> ''multipart'' \<notin> fst ` set (or_empty (Some [(''attachments'', Obj [(''a1'', Str ''bin1''), (''a2'', Str ''bin2'')])]))
   \<and> map_of (buildRequest ''1.0.0'' ''u1'' ''u2'' example_url (Str ''<x/>'') None
         (Some [(''attachments'', Obj [(''a1'', Str ''bin1''), (''a2'', Str ''bin2'')])])) ''body'' = None
   \<and> (\<exists>env rest. obj_get (buildRequest ''1.0.0'' ''u1'' ''u2'' example_url (Str ''<x/>'') None
         (Some [(''attachments'', Obj [(''a1'', Str ''bin1''), (''a2'', Str ''bin2'')])])) ''multipart''
           = Arr (env # rest)
        \<and> map (\<lambda>p. property p ''content-id'') rest = [Str ''<a1>'', Str ''<a2>''])"
proof -
  let ?atts = "[(''a1'', Str ''bin1''), (''a2'', Str ''bin2'')]"
  let ?e = "Some [(''attachments'', Obj ?atts)]"
  have h1: "obj_get (or_empty ?e) ''attachments'' = Obj ?atts" by (simp add: or_empty_def obj_get_def)
  have h2: "?atts \<noteq> []" by simp
  have h3: "''body'' \<notin> fst ` set (or_empty ?e)" by (simp add: or_empty_def)
  have h4: "''headers'' \<notin> fst ` set (or_empty ?e)" by (simp add: or_empty_def)
  have h5: "''multipart'' \<notin> fst ` set (or_empty ?e)" by (simp add: or_empty_def)
  from buildRequest_with_attachments[OF h1 h2 h3 h4 h5, of "''1.0.0''" "''u1''" "''u2''" example_url "Str ''<x/>''" None]
  obtain env rest where
    "map_of (buildRequest ''1.0.0'' ''u1'' ''u2'' example_url (Str ''<x/>'') None ?e) ''body'' = None"
    "obj_get (buildRequest ''1.0.0'' ''u1'' ''u2'' example_url (Str ''<x/>'') None ?e) ''multipart'' = Arr (env # rest)"
    "map (\<lambda>p. property p ''content-id'') rest = map (\<lambda>kv. Str (''<'' @ fst kv @ ''>'')) ?atts"
    by blast
  then show ?thesis using h1 h3 h4 h5 by auto
qed

section \<open>The multipart parser: the boundary\<close>

lemma boundary_regex_eq:
  "boundary_regex t = lit_ci ''boundary=\"'' (\<lambda>u.
      lit_ci ''\"'' (\<lambda>_. Some (takeWhile (\<lambda>c. c \<noteq> CHR 0x22) u)) (dropWhile (\<lambda>c. c \<noteq> CHR 0x22) u)) t"
proof -
  have "star (\<lambda>c. c \<noteq> CHR 0x22) (\<lambda>g1. lit_ci ''\"'' (\<lambda>_. Some g1)) []
      = (\<lambda>u. lit_ci ''\"'' (\<lambda>_. Some (takeWhile (\<lambda>c. c \<noteq> CHR 0x22) u))
              (dropWhile (\<lambda>c. c \<noteq> CHR 0x22) u))"
  proof
    fix u
    show "star (\<lambda>c. c \<noteq> CHR 0x22) (\<lambda>g1. lit_ci ''\"'' (\<lambda>_. Some g1)) [] u
      = lit_ci ''\"'' (\<lambda>_. Some (takeWhile (\<lambda>c. c \<noteq> CHR 0x22) u)) (dropWhile (\<lambda>c. c \<noteq> CHR 0x22) u)"
      by (subst star_skip) simp_all
  qed
  then show ?thesis unfolding boundary_regex_def by simp
qed

lemma boundary_regex_sound:
  assumes "boundary_regex t = Some b"
  shows "\<exists>kw post. t = kw @ b @ [CHR 0x22] @ post \<and> ci_eq kw ''boundary=\"'' \<and> CHR 0x22 \<notin> set b"
proof -
  from assms obtain kw u where k: "t = kw @ u" "ci_eq kw ''boundary=\"''"
    "lit_ci ''\"'' (\<lambda>_. Some (takeWhile (\<lambda>c. c \<noteq> CHR 0x22) u)) (dropWhile (\<lambda>c. c \<noteq> CHR 0x22) u) = Some b"
    unfolding boundary_regex_eq lit_ci_Some by blast
  from k(3) obtain q post where q0: "dropWhile (\<lambda>c. c \<noteq> CHR 0x22) u = q @ post" "ci_eq q ''\"''"
    "Some (takeWhile (\<lambda>c. c \<noteq> CHR 0x22) u) = Some b"
    unfolding lit_ci_Some by blast
  have q: "q = [CHR 0x22]" using q0(2) by (rule ci_eq_punct) (simp add: bit5_def is_lower_def)
  have b: "b = takeWhile (\<lambda>c. c \<noteq> CHR 0x22) u" using q0(3) by simp
  have "u = b @ [CHR 0x22] @ post"
    using q0(1) q b takeWhile_dropWhile_id[of "\<lambda>c. c \<noteq> CHR 0x22" u] by simp
  moreover have "CHR 0x22 \<notin> set b" unfolding b using set_takeWhileD by fastforce
  ultimately show ?thesis using k(1,2) by blast
qed

lemma boundary_regex_complete:
  assumes "ci_eq kw ''boundary=\"''" "CHR 0x22 \<notin> set b"
  shows "boundary_regex (kw @ b @ [CHR 0x22] @ post) = Some b"
proof -
  have nb: "\<And>x. x \<in> set b \<Longrightarrow> x \<noteq> CHR 0x22" using assms(2) by auto
  have 1: "takeWhile (\<lambda>c. c \<noteq> CHR 0x22) (b @ [CHR 0x22] @ post) = b"
    using nb by (simp add: takeWhile_append2)
  have 2: "dropWhile (\<lambda>c. c \<noteq> CHR 0x22) (b @ [CHR 0x22] @ post) = [CHR 0x22] @ post"
    using nb by (simp add: dropWhile_append2)
  have A: "\<And>K U. lit_ci ''boundary=\"'' K (kw @ U) = K U" by (rule lit_ci_append) (rule assms(1))
  have B: "\<And>K U. lit_ci ''\"'' K ([CHR 0x22] @ U) = K U" by (rule lit_ci_append) simp
  show ?thesis unfolding boundary_regex_eq A 1 2 B ..
qed

lemma has_boundary_token_iff:
  "has_boundary_token ct \<longleftrightarrow> re_exec boundary_regex ct \<noteq> None"
proof
  assume "has_boundary_token ct"
  then obtain pre kw b post where h: "ct = pre @ kw @ b @ [CHR 0x22] @ post"
    "ci_eq kw ''boundary=\"''" "CHR 0x22 \<notin> set b"
    unfolding has_boundary_token_def by blast
  have "boundary_regex (kw @ b @ [CHR 0x22] @ post) \<noteq> None"
    using boundary_regex_complete[OF h(2,3)] by simp
  then show "re_exec boundary_regex ct \<noteq> None" unfolding h(1) by (rule re_exec_complete)
next
  assume "re_exec boundary_regex ct \<noteq> None"
  then obtain t b where tb: "re_exec boundary_regex ct = Some (t, b)" by auto
  from re_exec_Some[OF tb] obtain pre where t: "boundary_regex t = Some b" "ct = pre @ t" by blast
  from boundary_regex_sound[OF t(1)] obtain kw post where
    "t = kw @ b @ [CHR 0x22] @ post" "ci_eq kw ''boundary=\"''" "CHR 0x22 \<notin> set b" by blast
  then show "has_boundary_token ct" unfolding has_boundary_token_def using t(2) by blast
qed

text \<open>
  Claim C4. Whatever the response body string: when there is no response object or no
  \<^verbatim>\<open>content-type\<close> header, or when the header's value contains no token
  \<^verbatim>\<open>boundary="..."\<close> (an unquoted \<^verbatim>\<open>boundary=\<close> parameter is such a value), the parser
  returns the empty part list, and the callback receives an empty attachments list.
\<close>

theorem handleMultipart_without_boundary:
  assumes "case res of None \<Rightarrow> True
           | Some r \<Rightarrow> (case map_of (res_headers r) ''content-type'' of
                          None \<Rightarrow> True
                        | Some ct \<Rightarrow> \<not> has_boundary_token ct)"
    and "\<not> truthy err"
  shows "handleMultipart res (Str body) = []
       \<and> on_response err res body textBody = Success res (handleResponse (Str textBody)) [] []"
proof -
  have "handleMultipart res (Str body) = []"
  proof (cases "content_type res")
    case None
    then show ?thesis by (simp add: handleMultipart_def)
  next
    case (Some ct)
    then have "\<not> has_boundary_token ct"
      using assms(1) by (auto simp: content_type_def split: option.splits if_splits)
    then have "re_exec boundary_regex ct = None" using has_boundary_token_iff[of ct] by blast
    with Some show ?thesis by (simp add: handleMultipart_def)
  qed
  then show ?thesis using assms(2) by (simp add: on_response_def)
qed

theorem handleMultipart_without_boundary_witness:
  "\<not> has_boundary_token ''multipart/related; boundary=MIME_b1; type=\"text/xml\"''
   \<and> \<not> truthy Null
   \<and> handleMultipart
        (Some \<lparr>res_headers = [(''content-type'', ''multipart/related; boundary=MIME_b1; type=\"text/xml\"'')]\<rparr>)
        (Str ''--MIME_b1 part --MIME_b1--'') = []
   \<and> handleMultipart None (Str ''--MIME_b1 part --MIME_b1--'') = []
   \<and> handleMultipart (Some \<lparr>res_headers = [(''content-length'', ''26'')]\<rparr>)
        (Str ''--MIME_b1 part --MIME_b1--'') = []"
proof -
  let ?ct = "''multipart/related; boundary=MIME_b1; type=\"text/xml\"''"
  have "re_exec boundary_regex ?ct = None" by code_simp
  then have n: "\<not> has_boundary_token ?ct" by (simp add: has_boundary_token_iff)
  have h1: "case Some \<lparr>res_headers = [(''content-type'', ?ct)]\<rparr> of None \<Rightarrow> True
           | Some r \<Rightarrow> (case map_of (res_headers r) ''content-type'' of
                          None \<Rightarrow> True
                        | Some ct \<Rightarrow> \<not> has_boundary_token ct)"
    using n by simp
  have h2: "case (None :: response option) of None \<Rightarrow> True
           | Some r \<Rightarrow> (case map_of (res_headers r) ''content-type'' of
                          None \<Rightarrow> True
                        | Some ct \<Rightarrow> \<not> has_boundary_token ct)"
    by simp
  have h3: "case Some \<lparr>res_headers = [(''content-length'', ''26'')]\<rparr> of None \<Rightarrow> True
           | Some r \<Rightarrow> (case map_of (res_headers r) ''content-type'' of
                          None \<Rightarrow> True
                        | Some ct \<Rightarrow> \<not> has_boundary_token ct)"
    by simp
  have e: "\<not> truthy Null" by simp
  show ?thesis
    using n e handleMultipart_without_boundary[OF h1 e, of "''--MIME_b1 part --MIME_b1--''" "[]"]
      handleMultipart_without_boundary[OF h2 e, of "''--MIME_b1 part --MIME_b1--''" "[]"]
      handleMultipart_without_boundary[OF h3 e, of "''--MIME_b1 part --MIME_b1--''" "[]"]
    by simp
qed

section \<open>The attachments among the parts\<close>

lemma lit_Some: "lit w Some t = Some r \<longleftrightarrow> t = w @ r"
  by (induction w "Some :: string \<Rightarrow> string option" t rule: lit.induct) auto

lemma re_exec_None_iff: "re_exec f s \<noteq> None \<longleftrightarrow> (\<exists>pre t. s = pre @ t \<and> f t \<noteq> None)"
proof
  assume "re_exec f s \<noteq> None"
  then obtain t r where "re_exec f s = Some (t, r)" by auto
  from re_exec_Some[OF this] show "\<exists>pre t. s = pre @ t \<and> f t \<noteq> None" by auto
next
  assume "\<exists>pre t. s = pre @ t \<and> f t \<noteq> None"
  then obtain pre t where "s = pre @ t" "f t \<noteq> None" by blast
  then show "re_exec f s \<noteq> None" using re_exec_complete[of f t pre] by simp
qed

lemma search_index_found: "search_index m s \<noteq> - 1 \<longleftrightarrow> re_exec m s \<noteq> None"
  by (auto simp: search_index_def split: option.splits)

lemma indexOf_contains: "indexOf s sub \<noteq> - 1 \<longleftrightarrow> contains s sub"
proof -
  have "(\<exists>pre t. s = pre @ t \<and> lit sub Some t \<noteq> None) \<longleftrightarrow> (\<exists>pre post. s = pre @ sub @ post)"
  proof
    assume "\<exists>pre t. s = pre @ t \<and> lit sub Some t \<noteq> None"
    then obtain pre t r where "s = pre @ t" "lit sub Some t = Some r" by auto
    then have "s = pre @ sub @ r" by (simp add: lit_Some)
    then show "\<exists>pre post. s = pre @ sub @ post" by blast
  next
    assume "\<exists>pre post. s = pre @ sub @ post"
    then obtain pre post where "s = pre @ sub @ post" by blast
    moreover have "lit sub Some (sub @ post) \<noteq> None" using lit_Some[of sub "sub @ post" post] by simp
    ultimately show "\<exists>pre t. s = pre @ t \<and> lit sub Some t \<noteq> None" by blast
  qed
  then show ?thesis
    by (simp only: indexOf_def search_index_found re_exec_None_iff contains_def)
qed

lemma find_header_Some:
  "find_header p hs = Some v \<longleftrightarrow>
     (\<exists>hs1 k hs2. hs = hs1 @ (k, Some v) # hs2 \<and> p k \<and> (\<forall>kv\<in>set hs1. \<not> p (fst kv)))"
proof (induction hs)
  case Nil then show ?case by (simp add: find_header_def)
next
  case (Cons h hs)
  obtain k0 v0 where h: "h = (k0, v0)" by (cases h)
  show ?case
  proof (cases "p k0")
    case True
    have "find_header p (h # hs) = v0" using True h by (simp add: find_header_def)
    moreover have "(\<exists>hs1 k hs2. h # hs = hs1 @ (k, Some v) # hs2 \<and> p k \<and> (\<forall>kv\<in>set hs1. \<not> p (fst kv)))
        \<longleftrightarrow> v0 = Some v"
    proof
      assume "\<exists>hs1 k hs2. h # hs = hs1 @ (k, Some v) # hs2 \<and> p k \<and> (\<forall>kv\<in>set hs1. \<not> p (fst kv))"
      then obtain hs1 k hs2 where e: "h # hs = hs1 @ (k, Some v) # hs2" "\<forall>kv\<in>set hs1. \<not> p (fst kv)"
        by blast
      show "v0 = Some v"
      proof (cases hs1)
        case Nil with e(1) h show ?thesis by simp
      next
        case (Cons a list)
        with e(1) have "a = h" by simp
        with Cons e(2) True h show ?thesis by simp
      qed
    next
      assume "v0 = Some v"
      then have "h # hs = [] @ (k0, Some v) # hs \<and> p k0 \<and> (\<forall>kv\<in>set []. \<not> p (fst kv))"
        using h True by simp
      then show "\<exists>hs1 k hs2. h # hs = hs1 @ (k, Some v) # hs2 \<and> p k \<and> (\<forall>kv\<in>set hs1. \<not> p (fst kv))"
        by blast
    qed
    ultimately show ?thesis by simp
  next
    case False
    have f: "find_header p (h # hs) = find_header p hs" using False h by (simp add: find_header_def)
    have "(\<exists>hs1 k hs2. h # hs = hs1 @ (k, Some v) # hs2 \<and> p k \<and> (\<forall>kv\<in>set hs1. \<not> p (fst kv)))
        \<longleftrightarrow> (\<exists>hs1 k hs2. hs = hs1 @ (k, Some v) # hs2 \<and> p k \<and> (\<forall>kv\<in>set hs1. \<not> p (fst kv)))"
    proof
      assume "\<exists>hs1 k hs2. h # hs = hs1 @ (k, Some v) # hs2 \<and> p k \<and> (\<forall>kv\<in>set hs1. \<not> p (fst kv))"
      then obtain hs1 k hs2 where e: "h # hs = hs1 @ (k, Some v) # hs2" "p k" "\<forall>kv\<in>set hs1. \<not> p (fst kv)"
        by blast
      show "\<exists>hs1 k hs2. hs = hs1 @ (k, Some v) # hs2 \<and> p k \<and> (\<forall>kv\<in>set hs1. \<not> p (fst kv))"
      proof (cases hs1)
        case Nil with e(1,2) h False show ?thesis by simp
      next
        case (Cons a list)
        with e have "hs = list @ (k, Some v) # hs2 \<and> p k \<and> (\<forall>kv\<in>set list. \<not> p (fst kv))" by simp
        then show ?thesis by blast
      qed
    next
      assume "\<exists>hs1 k hs2. hs = hs1 @ (k, Some v) # hs2 \<and> p k \<and> (\<forall>kv\<in>set hs1. \<not> p (fst kv))"
      then obtain hs1 k hs2 where e: "hs = hs1 @ (k, Some v) # hs2" "p k" "\<forall>kv\<in>set hs1. \<not> p (fst kv)"
        by blast
      then have "h # hs = (h # hs1) @ (k, Some v) # hs2 \<and> p k \<and> (\<forall>kv\<in>set (h # hs1). \<not> p (fst kv))"
        using False h by simp
      then show "\<exists>hs1 k hs2. h # hs = hs1 @ (k, Some v) # hs2 \<and> p k \<and> (\<forall>kv\<in>set hs1. \<not> p (fst kv))"
        by blast
    qed
    with f Cons.IH show ?thesis by simp
  qed
qed

lemma not_contains_Nil: "\<not> contains [] ''attachment''"
  by (simp add: contains_def)

lemma disposition_key:
  "(key \<noteq> [] \<and> toLowerCase key = ''content-disposition'') = (toLowerCase key = ''content-disposition'')"
  by (auto simp: toLowerCase_def)

lemma is_attachment_iff: "is_attachment part \<longleftrightarrow> attachment_rule part"
proof -
  let ?p = "\<lambda>key. toLowerCase key = ''content-disposition''"
  let ?cd = "find_header ?p (part_headers part)"
  have "is_attachment part \<longleftrightarrow> contains (case ?cd of None \<Rightarrow> [] | Some v \<Rightarrow> if v \<noteq> [] then v else []) ''attachment''"
    by (simp add: is_attachment_def Let_def indexOf_contains disposition_key)
  also have "\<dots> \<longleftrightarrow> (\<exists>v. ?cd = Some v \<and> contains v ''attachment'')"
    by (cases ?cd) (auto simp: not_contains_Nil)
  also have "\<dots> \<longleftrightarrow> attachment_rule part"
    unfolding attachment_rule_def find_header_Some by blast
  finally show ?thesis .
qed

text \<open>
  Claim C6, as stated, fails twice. A value spelled \<^verbatim>\<open>ATTACHMENT\<close> does not qualify:
  the header name is compared in lower case, the value is searched as it is. And only
  the first header named \<^verbatim>\<open>Content-Disposition\<close> is looked at, so a part whose second
  such header (in another letter case) says \<^verbatim>\<open>attachment\<close> does not qualify either.
\<close>

theorem attachments_filter_counterexample:
  "claimed_is_attachment
      \<lparr>part_headers = [(''Content-Disposition'', Some ''ATTACHMENT; filename=a.bin'')],
       part_data = ''data''\<rparr>
   \<and> filter is_attachment
      [\<lparr>part_headers = [(''Content-Disposition'', Some ''ATTACHMENT; filename=a.bin'')],
        part_data = ''data''\<rparr>] = []
   \<and> claimed_is_attachment
      \<lparr>part_headers = [(''Content-Disposition'', Some ''inline''),
                       (''content-disposition'', Some ''attachment'')],
       part_data = ''data''\<rparr>
   \<and> filter is_attachment
      [\<lparr>part_headers = [(''Content-Disposition'', Some ''inline''),
                        (''content-disposition'', Some ''attachment'')],
        part_data = ''data''\<rparr>] = []"
proof -
  have l1: "toLowerCase ''Content-Disposition'' = ''content-disposition''" by code_simp
  have l2: "toLowerCase ''ATTACHMENT; filename=a.bin'' = ''attachment; filename=a.bin''" by code_simp
  have l3: "toLowerCase ''content-disposition'' = ''content-disposition''" by code_simp
  have l4: "toLowerCase ''attachment'' = ''attachment''" by code_simp
  have c1: "contains ''attachment; filename=a.bin'' ''attachment''"
    unfolding contains_def by (rule exI[of _ "[]"], rule exI[of _ "''; filename=a.bin''"]) simp
  have c2: "contains ''attachment'' ''attachment''"
    unfolding contains_def by (rule exI[of _ "[]"], rule exI[of _ "[]"]) simp
  have a: "claimed_is_attachment
      \<lparr>part_headers = [(''Content-Disposition'', Some ''ATTACHMENT; filename=a.bin'')],
       part_data = ''data''\<rparr>"
    unfolding claimed_is_attachment_def using l1 l2 c1 by simp
  have b: "claimed_is_attachment
      \<lparr>part_headers = [(''Content-Disposition'', Some ''inline''),
                       (''content-disposition'', Some ''attachment'')],
       part_data = ''data''\<rparr>"
    unfolding claimed_is_attachment_def using l3 l4 c2 by simp
  have c: "filter is_attachment
      [\<lparr>part_headers = [(''Content-Disposition'', Some ''ATTACHMENT; filename=a.bin'')],
        part_data = ''data''\<rparr>] = []"
    by code_simp
  have d: "filter is_attachment
      [\<lparr>part_headers = [(''Content-Disposition'', Some ''inline''),
                        (''content-disposition'', Some ''attachment'')],
        part_data = ''data''\<rparr>] = []"
    by code_simp
  show ?thesis using a b c d by blast
qed

text \<open>
  Claim C6, amended. For every parsed part list, the attachments delivered to the caller
  are exactly the parts whose first header named \<^verbatim>\<open>Content-Disposition\<close> under
  case-insensitive comparison has a value that contains \<^verbatim>\<open>attachment\<close>, spelled in
  lower case; the order of the parts is kept.
\<close>

theorem attachments_filter:
  "filter is_attachment parts = filter attachment_rule parts
   \<and> (\<not> truthy err \<longrightarrow>
        on_response err res binaryBody textBody =
          Success res (handleResponse (Str textBody))
            (filter attachment_rule (handleMultipart res (Str binaryBody)))
            (handleMultipart res (Str binaryBody)))"
proof -
  have "is_attachment = attachment_rule" using is_attachment_iff by blast
  then show ?thesis by (simp add: on_response_def Let_def)
qed

theorem attachments_filter_witness:
  "\<not> truthy Null
   \<and> filter attachment_rule
        (handleMultipart example_response
          (Str (''--B'' @ CRLF @ ''Content-Type: text/xml'' @ CRLF @ CRLF @ ''<x/>'' @ CRLF
              @ ''--B'' @ CRLF @ ''CONTENT-DISPOSITION: attachment; filename=a.bin'' @ CRLF @ CRLF
              @ ''DATA'' @ CRLF @ ''--B--'')))
     = [\<lparr>part_headers = [(''CONTENT-DISPOSITION'', Some ''attachment; filename=a.bin'')],
         part_data = ''DATA'' @ CRLF\<rparr>]"
proof -
  let ?body = "''--B'' @ CRLF @ ''Content-Type: text/xml'' @ CRLF @ CRLF @ ''<x/>'' @ CRLF
              @ ''--B'' @ CRLF @ ''CONTENT-DISPOSITION: attachment; filename=a.bin'' @ CRLF @ CRLF
              @ ''DATA'' @ CRLF @ ''--B--''"
  have e: "\<not> truthy Null" by simp
  have "on_response Null example_response ?body ?body =
     Success example_response (Str ?body)
       [\<lparr>part_headers = [(''CONTENT-DISPOSITION'', Some ''attachment; filename=a.bin'')],
         part_data = ''DATA'' @ CRLF\<rparr>]
       (handleMultipart example_response (Str ?body))"
    by code_simp
  then show ?thesis
    using e attachments_filter[of "[]" Null example_response ?body ?body] by simp
qed

section \<open>The multipart parser: what a segment becomes\<close>

lemma blank_line_index: "search_index blank_line seg = indexOf seg (CRLF @ CRLF)"
  by (simp add: indexOf_def blank_line_def CRLF_def)

lemma parse_header_empty_line: "parse_header hs [] = hs"
  by (simp add: parse_header_def split_def field_def)

lemma substring_from_drop:
  assumes "0 \<le> i"
  shows "substring_from s i = drop (nat i) s"
proof (cases "i \<le> int (length s)")
  case True
  then show ?thesis
    using assms by (simp add: substring_from_def substring_def Let_def min_def max_def nat_diff_distrib')
next
  case False
  then have "substring_from s i = []"
    using assms by (simp add: substring_from_def substring_def Let_def min_def max_def)
  moreover have "drop (nat i) s = []" using False by simp
  ultimately show ?thesis by simp
qed

lemma parse_part_without_blank_line:
  assumes "\<not> contains seg (CRLF @ CRLF)"
  shows "parse_part seg = \<lparr>part_headers = [], part_data = drop 3 seg\<rparr>"
proof -
  have i: "search_index blank_line seg = - 1"
    using assms indexOf_contains[of seg "CRLF @ CRLF"] by (simp add: blank_line_index)
  have h: "substring seg 0 (- 1) = []" by (simp add: substring_def)
  have d: "substring_from seg 3 = drop 3 seg"
    using substring_from_drop[of 3 seg] by simp
  show ?thesis
    unfolding parse_part_def Let_def i by (simp add: h d parse_header_empty_line)
qed

lemma re_exec_first:
  assumes "f t = Some r"
    and "\<And>pre1 pre2. pre = pre1 @ pre2 \<Longrightarrow> pre2 \<noteq> [] \<Longrightarrow> f (pre2 @ t) = None"
  shows "re_exec f (pre @ t) = Some (t, r)"
  using assms(2)
proof (induction pre)
  case Nil
  then show ?case using re_exec_here[of f t r] assms(1) by simp
next
  case (Cons c pre)
  have "f ((c # pre) @ t) = None" using Cons.prems[of "[]" "c # pre"] by simp
  moreover have "re_exec f (pre @ t) = Some (t, r)"
  proof (rule Cons.IH)
    fix pre1 pre2 assume "pre = pre1 @ pre2" "pre2 \<noteq> []"
    then show "f (pre2 @ t) = None" using Cons.prems[of "c # pre1" pre2] by simp
  qed
  ultimately show ?case by simp
qed

lemma take_four_append:
  assumes "xs \<noteq> []" "3 \<le> length ys"
  shows "take 4 (xs @ take 3 ys) = take 4 (xs @ ys @ zs)"
proof -
  from assms obtain a l where x: "xs = a # l" by (cases xs) auto
  have "take (3 - length l) (take 3 ys) = take (3 - length l) (ys @ zs)"
    using assms(2) by (simp add: min_def)
  then show ?thesis by (simp add: x)
qed

lemma parse_part_with_blank_line:
  assumes "\<not> contains (h @ take 3 (CRLF @ CRLF)) (CRLF @ CRLF)"
  shows "part_data (parse_part (h @ CRLF @ CRLF @ b)) = b"
    and "part_headers (parse_part (h @ CRLF @ CRLF @ b)) = foldl parse_header [] (split_lines [] h)"
proof -
  let ?w = "CRLF @ CRLF"
  let ?t = "?w @ b"
  have w4: "length ?w = 4" by (simp add: CRLF_def)
  have w3: "3 \<le> length ?w" by (simp add: CRLF_def)
  have none: "lit ?w Some (pre2 @ ?t) = None" if p: "h = pre1 @ pre2" "pre2 \<noteq> []" for pre1 pre2
  proof (rule ccontr)
    assume "lit ?w Some (pre2 @ ?t) \<noteq> None"
    then obtain r where "lit ?w Some (pre2 @ ?t) = Some r" by blast
    then have e: "pre2 @ ?w @ b = ?w @ r" by (simp add: lit_Some)
    have l: "4 \<le> length (pre2 @ take 3 ?w)" using p(2) w4 by (cases pre2) (simp_all add: CRLF_def)
    have "take 4 (pre2 @ take 3 ?w) = take 4 (pre2 @ ?w @ b)"
      by (rule take_four_append[OF p(2) w3])
    also have "\<dots> = ?w" using e w4 by simp
    finally have "pre2 @ take 3 ?w = ?w @ drop 4 (pre2 @ take 3 ?w)"
      by (metis append_take_drop_id)
    then have "h @ take 3 ?w = pre1 @ ?w @ drop 4 (pre2 @ take 3 ?w)"
      using p(1) by (metis append.assoc)
    then have "contains (h @ take 3 ?w) ?w" unfolding contains_def by blast
    with assms show False by simp
  qed
  have "lit ?w Some ?t = Some b" by (simp add: lit_Some)
  from re_exec_first[of "lit ?w Some" ?t b h, OF this none]
  have "re_exec (lit ?w Some) (h @ ?t) = Some (?t, b)" by simp
  then have i: "search_index blank_line (h @ CRLF @ CRLF @ b) = int (length h)"
    by (simp add: search_index_def blank_line_def CRLF_def)
  have hp: "substring (h @ CRLF @ CRLF @ b) 0 (int (length h)) = h"
    by (simp add: substring_def)
  have d: "substring_from (h @ CRLF @ CRLF @ b) (int (length h) + 4) = b"
    using substring_from_drop[of "int (length h) + 4" "h @ CRLF @ CRLF @ b"]
    by (simp add: nat_add_distrib CRLF_def)
  show "part_data (parse_part (h @ CRLF @ CRLF @ b)) = b"
    unfolding parse_part_def Let_def i by (simp add: d)
  show "part_headers (parse_part (h @ CRLF @ CRLF @ b)) = foldl parse_header [] (split_lines [] h)"
    unfolding parse_part_def Let_def i by (simp add: hp)
qed

lemma split_from_char:
  "c \<notin> set x \<Longrightarrow> split_from [c] acc (x @ c # y) = (acc @ x) # split_from [c] [] y"
proof (induction x arbitrary: acc)
  case Nil
  then show ?case by (simp add: starts_with_def)
next
  case (Cons a x)
  then have "a \<noteq> c" "c \<notin> set x" by auto
  then show ?case using Cons.IH[of "acc @ [a]"] by (simp add: starts_with_def)
qed

lemma split_from_no_char: "c \<notin> set x \<Longrightarrow> split_from [c] acc x = [acc @ x]"
proof (induction x arbitrary: acc)
  case Nil then show ?case by simp
next
  case (Cons a x)
  then have "a \<noteq> c" "c \<notin> set x" by auto
  then show ?case using Cons.IH[of "acc @ [a]"] by (simp add: starts_with_def)
qed

lemma parse_header_second_colon:
  assumes "CHR '':'' \<notin> set name" "CHR '':'' \<notin> set v" "name \<noteq> []"
  shows "parse_header hs (name @ '':'' @ v @ '':'' @ rest)
           = set_header hs (trim name) (Some (if v \<noteq> [] then trim v else v))"
proof -
  have "split (name @ '':'' @ v @ '':'' @ rest) '':'' = name # v # split_from '':'' [] rest"
    using split_from_char[OF assms(1), of "[]" "v @ '':'' @ rest"]
      split_from_char[OF assms(2), of "[]" rest]
    by (simp add: split_def)
  then show ?thesis using assms(3) by (simp add: parse_header_def field_def)
qed

lemma parse_header_one_colon:
  assumes "CHR '':'' \<notin> set name" "CHR '':'' \<notin> set v" "name \<noteq> []"
  shows "parse_header hs (name @ '':'' @ v)
           = set_header hs (trim name) (Some (if v \<noteq> [] then trim v else v))"
proof -
  have "split (name @ '':'' @ v) '':'' = [name, v]"
    using split_from_char[OF assms(1), of "[]" v] split_from_no_char[OF assms(2), of "[]"]
    by (simp add: split_def)
  then show ?thesis using assms(3) by (simp add: parse_header_def field_def)
qed

text \<open>
  Claim C2. Every segment is cut at its first blank line (CRLF CRLF): the header block
  is what is before it, the body what is after its four characters
  (\<open>parse_part_with_blank_line\<close>); and a segment without a blank line is to give no
  header and the whole segment as its body. The code does not treat the -1 that
  \<^verbatim>\<open>search\<close> returns then: the header block \<^verbatim>\<open>substring(0, -1)\<close> is empty, but the
  body \<^verbatim>\<open>substring(-1 + 4)\<close> is the segment without its first three characters
  (\<open>parse_part_without_blank_line\<close>). Evaluated here: of the segment \<^verbatim>\<open>--\r\n\<close> that
  the closing delimiter leaves, only the line feed is kept, and of the segment
  \<^verbatim>\<open>no blank line\<close> only \<^verbatim>\<open>blank line\<close>.
\<close>

theorem handleMultipart_segment_without_blank_line:
  "handleMultipart example_response
     (Str (''--B'' @ CRLF @ ''Content-Type: text/xml'' @ CRLF @ CRLF @ ''<x/>'' @ CRLF @ ''--B--'' @ CRLF))
   = [\<lparr>part_headers = [], part_data = []\<rparr>,
      \<lparr>part_headers = [(''Content-Type'', Some ''text/xml'')], part_data = ''<x/>'' @ CRLF\<rparr>,
      \<lparr>part_headers = [], part_data = [CHR 0x0A]\<rparr>]
   \<and> parse_part ''no blank line'' = \<lparr>part_headers = [], part_data = ''blank line''\<rparr>"
  by code_simp

text \<open>
  Claim C3. The header block is split on line breaks and each line on its first colon
  into a trimmed name and a value, the value being everything after the first colon. The
  code takes the value from \<^verbatim>\<open>header.split(':')[1]\<close>, which is the text between the
  first and the second colon (\<open>parse_header_second_colon\<close>); for a line with one colon
  the two agree (\<open>parse_header_one_colon\<close>). Evaluated here: \<^verbatim>\<open>Content-ID: <urn:uuid:1234>\<close>
  is stored as \<^verbatim>\<open><urn\<close>, and \<^verbatim>\<open>Content-Location: http://host/a.bin\<close> as \<^verbatim>\<open>http\<close>.
\<close>

theorem handleMultipart_header_value_with_colon:
  "handleMultipart example_response
     (Str (''--B'' @ CRLF @ ''Content-ID: <urn:uuid:1234>'' @ CRLF
           @ ''Content-Location: http://host/a.bin'' @ CRLF @ CRLF @ ''DATA''))
   = [\<lparr>part_headers = [], part_data = []\<rparr>,
      \<lparr>part_headers = [(''Content-ID'', Some ''<urn''), (''Content-Location'', Some ''http'')],
       part_data = ''DATA''\<rparr>]"
  by code_simp

end
